theory Spec2Isabelle
  imports Complex_Main "HOL-Library.Multiset"
begin

section \<open>The container of unorderedMapHeader.hpp / unorderedMapImplementation.tpp\<close>

text \<open>
  \<^verbatim>\<open>UnorderedMap<Key,T,Hash,KeyEqual>\<close> is a hash table with separate chaining:
  a \<^verbatim>\<open>std::vector\<close> of \<^verbatim>\<open>std::list\<close>s of pairs, an element counter, a
  threshold and the two policy objects. The class becomes a record, a bucket a list of
  pairs (front of the \<^verbatim>\<open>std::list\<close> first), the bucket array a list of buckets.

  \<^verbatim>\<open>size_type\<close> is modelled by \<open>nat\<close>: a count of buckets or of elements is a count of
  objects in memory, which \<^verbatim>\<open>std::vector::max_size()\<close> keeps below \<open>2^63\<close>, so neither
  \<^verbatim>\<open>buckets_.size() * 2\<close> nor \<^verbatim>\<open>++num_elements_\<close> wraps. The one place where the
  counter could wrap, \<^verbatim>\<open>--num_elements_\<close> at zero, is written out in \<open>erase\<close>. A hash
  value is the \<open>nat\<close> read of the \<^verbatim>\<open>size_t\<close> the functor returns; the functor and the
  equality predicate are arbitrary functions (the template parameters). A member
  \<^verbatim>\<open>x_\<close> of the class is the field \<open>x_m\<close> of the record.

  Undefined behaviour and the one exception of the source are values of \<open>error\<close>, so
  that every operation returns \<open>error + result\<close>.
\<close>

datatype error =
    KeyNotFound            \<comment> \<open>\<^verbatim>\<open>throw std::out_of_range("Key not found")\<close> in \<^verbatim>\<open>at\<close>\<close>
  | DivisionByZero         \<comment> \<open>\<^verbatim>\<open>% 0\<close> on \<^verbatim>\<open>size_t\<close>: undefined behaviour\<close>
  | InvalidIterator        \<comment> \<open>\<^verbatim>\<open>*it\<close> or \<^verbatim>\<open>++it\<close> on a list iterator that denotes no element\<close>
  | BucketIndexOutOfRange  \<comment> \<open>\<^verbatim>\<open>buckets_[i]\<close> with \<^verbatim>\<open>i >= buckets_.size()\<close>\<close>

text \<open>
  \<^verbatim>\<open>float\<close>: the special values that the division of \<^verbatim>\<open>load_factor()\<close> produces
  at a zero bucket count, and the finite values as rationals. A comparison with a NaN is
  false. A value of this type that comes from outside (the argument of
  \<^verbatim>\<open>max_load_factor(float)\<close>) is any rational, which covers every
  single-precision number; \<open>float_lit\<close> is the number that a literal such as
  \<^verbatim>\<open>0.7f\<close> denotes.
\<close>

datatype float = NaN | PosInf | NegInf | Num rat

fun float_gt :: "float \<Rightarrow> float \<Rightarrow> bool" where
  "float_gt NaN _ = False"
| "float_gt _ NaN = False"
| "float_gt PosInf PosInf = False"
| "float_gt PosInf _ = True"
| "float_gt NegInf _ = False"
| "float_gt (Num x) PosInf = False"
| "float_gt (Num x) NegInf = True"
| "float_gt (Num x) (Num y) = (y < x)"

fun float_le :: "float \<Rightarrow> float \<Rightarrow> bool" where
  "float_le NaN _ = False"
| "float_le _ NaN = False"
| "float_le NegInf _ = True"
| "float_le _ PosInf = True"
| "float_le PosInf _ = False"
| "float_le (Num x) NegInf = False"
| "float_le (Num x) (Num y) = (x \<le> y)"

text \<open>
  Single-precision arithmetic (IEEE 754 binary32 in the default rounding mode, each
  operation evaluated in single precision) rounds every result to 24 significant bits,
  to the nearest representable number and to the one with an even last bit at a tie:
  the conversion of a count to \<^verbatim>\<open>float\<close> as well as the quotient. \<open>round_to_even\<close>
  rounds to an integer in this way. \<open>round_pos\<close> scales a positive rational by the power
  of two that brings it into \<open>[2^23, 2^24)\<close>, where the representable numbers are the
  integers, rounds it there, and scales back; the scaling is exact in binary.

  The exponent range is not modelled: the operands of the one division of the source are
  two \<^verbatim>\<open>size_t\<close> counts, below \<open>2^64\<close>, so the converted operands and their quotient
  (when the divisor is not zero) are zero or between \<open>2^-64\<close> and \<open>2^64\<close>, far inside
  the range of normal single-precision numbers.
\<close>

definition round_to_even :: "rat \<Rightarrow> int" where
  "round_to_even x =
     (if x - of_int \<lfloor>x\<rfloor> < 1 / 2 then \<lfloor>x\<rfloor>
      else if 1 / 2 < x - of_int \<lfloor>x\<rfloor> then \<lfloor>x\<rfloor> + 1
      else if even \<lfloor>x\<rfloor> then \<lfloor>x\<rfloor> else \<lfloor>x\<rfloor> + 1)"

function round_pos :: "rat \<Rightarrow> rat" where
  "round_pos x =
     (if x \<le> 0 then 0
      else if x < 2 ^ 23 then round_pos (2 * x) / 2
      else if 2 ^ 24 \<le> x then 2 * round_pos (x / 2)
      else of_int (round_to_even x))"
  by pat_completeness auto
termination
proof (relation "measure (\<lambda>x. if x < 2 ^ 23 then 2 ^ 25 + nat \<lceil>2 ^ 23 / x\<rceil> else nat \<lfloor>x\<rfloor>)")
  show "wf (measure (\<lambda>x::rat. if x < 2 ^ 23 then 2 ^ 25 + nat \<lceil>2 ^ 23 / x\<rceil> else nat \<lfloor>x\<rfloor>))"
    by simp
next
  fix x :: rat
  assume a: "\<not> x \<le> 0" "x < 2 ^ 23"
  show "(2 * x, x) \<in> measure (\<lambda>x. if x < 2 ^ 23 then 2 ^ 25 + nat \<lceil>2 ^ 23 / x\<rceil> else nat \<lfloor>x\<rfloor>)"
  proof (cases "2 * x < 2 ^ 23")
    case True
    define y where "y = 2 ^ 23 / x"
    have y: "2 < y"
      using a True by (simp add: y_def field_simps)
    have h: "2 ^ 23 / (2 * x) = y / 2"
      by (simp add: y_def)
    have "\<lceil>y / 2\<rceil> < \<lceil>y\<rceil>"
    proof -
      have "of_int \<lceil>y / 2\<rceil> < y / 2 + 1"
        by linarith
      also have "\<dots> \<le> y" using y by simp
      also have "y \<le> of_int \<lceil>y\<rceil>" by linarith
      finally show ?thesis by simp
    qed
    moreover have "0 < \<lceil>y\<rceil>"
      using y by linarith
    ultimately have "nat \<lceil>2 ^ 23 / (2 * x)\<rceil> < nat \<lceil>2 ^ 23 / x\<rceil>"
      unfolding h unfolding y_def by linarith
    then show ?thesis
      using a True by simp
  next
    case False
    have "\<lfloor>2 * x\<rfloor> < 16777216"
      using a by (simp add: floor_less_iff)
    then have "nat \<lfloor>2 * x\<rfloor> < 16777216"
      by linarith
    with a False show ?thesis
      by simp
  qed
next
  fix x :: rat
  assume a: "\<not> x \<le> 0" "\<not> x < 2 ^ 23" "2 ^ 24 \<le> x"
  have "of_int \<lfloor>x / 2\<rfloor> \<le> x / 2" by linarith
  also have "\<dots> \<le> x - 1" using a by simp
  also have "\<dots> < of_int \<lfloor>x\<rfloor>" by linarith
  finally have "\<lfloor>x / 2\<rfloor> < \<lfloor>x\<rfloor>" by simp
  moreover have "0 < \<lfloor>x\<rfloor>" using a by simp
  moreover have "\<not> x / 2 < 2 ^ 23" using a by simp
  ultimately show "(x / 2, x) \<in> measure (\<lambda>x. if x < 2 ^ 23 then 2 ^ 25 + nat \<lceil>2 ^ 23 / x\<rceil> else nat \<lfloor>x\<rfloor>)"
    using a by simp
qed

declare round_pos.simps [simp del]

definition float_round :: "rat \<Rightarrow> rat" where
  \<comment> \<open>the single-precision number nearest to a rational of either sign\<close>
  "float_round x = (if x < 0 then - round_pos (- x) else round_pos x)"

definition float_lit :: "rat \<Rightarrow> float" where
  \<comment> \<open>a literal: \<^verbatim>\<open>0.7f\<close> is \<open>float_lit (7 / 10)\<close>\<close>
  "float_lit x = Num (float_round x)"

definition float_of_size_t :: "nat \<Rightarrow> rat" where
  \<comment> \<open>\<^verbatim>\<open>static_cast<float>(n)\<close>, and the conversion of the divisor of \<^verbatim>\<open>float / size_t\<close>\<close>
  "float_of_size_t n = round_pos (of_nat n)"

definition float_div :: "nat \<Rightarrow> nat \<Rightarrow> float" where
  \<comment> \<open>\<^verbatim>\<open>static_cast<float>(n) / d\<close> for two counts: both operands are converted, the
      quotient is rounded; \<^verbatim>\<open>0/0\<close> is NaN, \<^verbatim>\<open>n/0\<close> is +inf\<close>
  "float_div n d =
     (if d = 0 then (if n = 0 then NaN else PosInf)
      else Num (round_pos (float_of_size_t n / float_of_size_t d)))"

record ('k, 'v) UnorderedMap =
  buckets_m :: "('k \<times> 'v) list list"
  num_elements_m :: nat
  max_load_factor_m :: float
  hasher_m :: "'k \<Rightarrow> nat"
  equal_m :: "'k \<Rightarrow> 'k \<Rightarrow> bool"

text \<open>
  An iterator is the bucket index and the position of the list iterator within that
  bucket; the \<^verbatim>\<open>map_\<close> pointer is left out, every iterator below being compared with
  iterators of the table it came from. The value-initialised list iterator of \<^verbatim>\<open>end()\<close>
  is position 0.
\<close>

record iterator =
  bucket_index_m :: nat
  list_it_m :: nat

definition DEFAULT_BUCKET_COUNT :: nat where
  "DEFAULT_BUCKET_COUNT = 16"

definition UnorderedMap_ctor ::
  "nat \<Rightarrow> ('k \<Rightarrow> nat) \<Rightarrow> ('k \<Rightarrow> 'k \<Rightarrow> bool) \<Rightarrow> ('k, 'v) UnorderedMap" where
  "UnorderedMap_ctor bucket_count_arg hash equal =
     \<lparr> buckets_m = replicate bucket_count_arg [], num_elements_m = 0,
       max_load_factor_m = Num 1, hasher_m = hash, equal_m = equal \<rparr>"

definition empty_um :: "('k, 'v) UnorderedMap \<Rightarrow> bool" where
  "empty_um t = (num_elements_m t = 0)"

definition size_um :: "('k, 'v) UnorderedMap \<Rightarrow> nat" where
  "size_um t = num_elements_m t"

definition bucket_count :: "('k, 'v) UnorderedMap \<Rightarrow> nat" where
  "bucket_count t = length (buckets_m t)"

definition load_factor :: "('k, 'v) UnorderedMap \<Rightarrow> float" where
  "load_factor t = float_div (num_elements_m t) (length (buckets_m t))"

definition max_load_factor :: "('k, 'v) UnorderedMap \<Rightarrow> float" where
  "max_load_factor t = max_load_factor_m t"

definition bucket_size :: "('k, 'v) UnorderedMap \<Rightarrow> nat \<Rightarrow> error + nat" where
  "bucket_size t i =
     (if i < length (buckets_m t) then Inr (length (buckets_m t ! i))
      else Inl BucketIndexOutOfRange)"

definition bucket :: "('k, 'v) UnorderedMap \<Rightarrow> 'k \<Rightarrow> error + nat" where
  "bucket t key =
     (if length (buckets_m t) = 0 then Inl DivisionByZero
      else Inr (hasher_m t key mod length (buckets_m t)))"

definition clear :: "('k, 'v) UnorderedMap \<Rightarrow> ('k, 'v) UnorderedMap" where
  "clear t = t\<lparr> buckets_m := map (\<lambda>bkt. []) (buckets_m t), num_elements_m := 0 \<rparr>"

subsection \<open>Rehashing\<close>

text \<open>
  The two loops of \<^verbatim>\<open>rehash\<close>: \<open>rehash_bucket\<close> is the inner loop over one old bucket,
  \<open>rehash_buckets\<close> the outer loop over the old bucket array; \<open>nb\<close> is \<^verbatim>\<open>new_buckets\<close>.
  The index is computed for every entry visited, so a zero \<^verbatim>\<open>new_count\<close> is an error at
  the first entry and harmless when there is none.
\<close>

fun rehash_bucket ::
  "('k \<Rightarrow> nat) \<Rightarrow> nat \<Rightarrow> ('k \<times> 'v) list \<Rightarrow> ('k \<times> 'v) list list
     \<Rightarrow> error + ('k \<times> 'v) list list" where
  "rehash_bucket h new_count [] nb = Inr nb"
| "rehash_bucket h new_count (kv # rest) nb =
     (if new_count = 0 then Inl DivisionByZero
      else let idx = h (fst kv) mod new_count
           in rehash_bucket h new_count rest (nb[idx := nb ! idx @ [kv]]))"

fun rehash_buckets ::
  "('k \<Rightarrow> nat) \<Rightarrow> nat \<Rightarrow> ('k \<times> 'v) list list \<Rightarrow> ('k \<times> 'v) list list
     \<Rightarrow> error + ('k \<times> 'v) list list" where
  "rehash_buckets h new_count [] nb = Inr nb"
| "rehash_buckets h new_count (bkt # rest) nb =
     (case rehash_bucket h new_count bkt nb of
        Inl e \<Rightarrow> Inl e
      | Inr nb' \<Rightarrow> rehash_buckets h new_count rest nb')"

definition rehash :: "('k, 'v) UnorderedMap \<Rightarrow> nat \<Rightarrow> error + ('k, 'v) UnorderedMap" where
  "rehash t new_count =
     (case rehash_buckets (hasher_m t) new_count (buckets_m t) (replicate new_count []) of
        Inl e \<Rightarrow> Inl e
      | Inr new_buckets \<Rightarrow> Inr (t\<lparr> buckets_m := new_buckets \<rparr>))"

definition rehash_if_needed :: "('k, 'v) UnorderedMap \<Rightarrow> error + ('k, 'v) UnorderedMap" where
  "rehash_if_needed t =
     (if float_gt (load_factor t) (max_load_factor_m t)
      then rehash t (length (buckets_m t) * 2)
      else Inr t)"

definition set_max_load_factor ::
  "('k, 'v) UnorderedMap \<Rightarrow> float \<Rightarrow> error + ('k, 'v) UnorderedMap" where
  \<comment> \<open>the setter overload \<^verbatim>\<open>max_load_factor(float ml)\<close>\<close>
  "set_max_load_factor t ml = rehash_if_needed (t\<lparr> max_load_factor_m := ml \<rparr>)"

subsection \<open>Lookup and mutation\<close>

text \<open>
  The scan of one bucket, shared by \<^verbatim>\<open>insert\<close>, \<^verbatim>\<open>erase\<close> and \<^verbatim>\<open>find\<close>:
  the position of the first entry \<open>e\<close> with \<^verbatim>\<open>equal_(e.first, key)\<close>, the stored key
  being the first argument of the predicate.
\<close>

fun scan :: "('k \<Rightarrow> 'k \<Rightarrow> bool) \<Rightarrow> 'k \<Rightarrow> ('k \<times> 'v) list \<Rightarrow> nat option" where
  "scan eq key [] = None"
| "scan eq key (e # es) =
     (if eq (fst e) key then Some 0 else map_option Suc (scan eq key es))"

definition end_um :: "('k, 'v) UnorderedMap \<Rightarrow> iterator" where
  "end_um t = \<lparr> bucket_index_m = length (buckets_m t), list_it_m = 0 \<rparr>"

definition iterator_eq :: "('k, 'v) UnorderedMap \<Rightarrow> iterator \<Rightarrow> iterator \<Rightarrow> bool" where
  \<comment> \<open>\<^verbatim>\<open>operator==\<close> of two iterators of the table \<open>t\<close>\<close>
  "iterator_eq t a b =
     (bucket_index_m a = bucket_index_m b \<and>
      (bucket_index_m a = length (buckets_m t) \<or> list_it_m a = list_it_m b))"

definition deref :: "('k, 'v) UnorderedMap \<Rightarrow> iterator \<Rightarrow> error + ('k \<times> 'v)" where
  \<comment> \<open>\<^verbatim>\<open>operator*\<close> and \<^verbatim>\<open>operator->\<close>\<close>
  "deref t it =
     (if bucket_index_m it < length (buckets_m t) \<and>
         list_it_m it < length (buckets_m t ! bucket_index_m it)
      then Inr (buckets_m t ! bucket_index_m it ! list_it_m it)
      else Inl InvalidIterator)"

definition insert_um ::
  "('k, 'v) UnorderedMap \<Rightarrow> 'k \<times> 'v \<Rightarrow> error + (('k, 'v) UnorderedMap \<times> iterator \<times> bool)" where
  "insert_um t kv =
     (case rehash_if_needed t of
        Inl e \<Rightarrow> Inl e
      | Inr t1 \<Rightarrow>
          (case bucket t1 (fst kv) of
             Inl e \<Rightarrow> Inl e
           | Inr idx \<Rightarrow>
               (case scan (equal_m t1) (fst kv) (buckets_m t1 ! idx) of
                  Some pos \<Rightarrow> Inr (t1, \<lparr> bucket_index_m = idx, list_it_m = pos \<rparr>, False)
                | None \<Rightarrow>
                    Inr (t1\<lparr> buckets_m := (buckets_m t1)[idx := buckets_m t1 ! idx @ [kv]],
                            num_elements_m := num_elements_m t1 + 1 \<rparr>,
                         \<lparr> bucket_index_m = idx, list_it_m = length (buckets_m t1 ! idx) \<rparr>,
                         True))))"

definition emplace ::
  "('k, 'v) UnorderedMap \<Rightarrow> 'k \<Rightarrow> 'v \<Rightarrow> error + (('k, 'v) UnorderedMap \<times> iterator \<times> bool)" where
  "emplace t k v = insert_um t (k, v)"

definition erase :: "('k, 'v) UnorderedMap \<Rightarrow> 'k \<Rightarrow> error + (('k, 'v) UnorderedMap \<times> nat)" where
  "erase t key =
     (case bucket t key of
        Inl e \<Rightarrow> Inl e
      | Inr idx \<Rightarrow>
          (let lst = buckets_m t ! idx in
           case scan (equal_m t) key lst of
             Some pos \<Rightarrow>
               Inr (t\<lparr> buckets_m := (buckets_m t)[idx := take pos lst @ drop (Suc pos) lst],
                       num_elements_m :=
                         (if num_elements_m t = 0 then 2 ^ 64 - 1 else num_elements_m t - 1) \<rparr>,
                    1)
           | None \<Rightarrow> Inr (t, 0)))"

definition find_um :: "('k, 'v) UnorderedMap \<Rightarrow> 'k \<Rightarrow> error + iterator" where
  "find_um t key =
     (case bucket t key of
        Inl e \<Rightarrow> Inl e
      | Inr idx \<Rightarrow>
          (case scan (equal_m t) key (buckets_m t ! idx) of
             Some pos \<Rightarrow> Inr \<lparr> bucket_index_m = idx, list_it_m = pos \<rparr>
           | None \<Rightarrow> Inr (end_um t)))"

definition contains :: "('k, 'v) UnorderedMap \<Rightarrow> 'k \<Rightarrow> error + bool" where
  "contains t key =
     (case find_um t key of
        Inl e \<Rightarrow> Inl e
      | Inr it \<Rightarrow> Inr (\<not> iterator_eq t it (end_um t)))"

definition count_um :: "('k, 'v) UnorderedMap \<Rightarrow> 'k \<Rightarrow> error + nat" where
  "count_um t key =
     (case contains t key of
        Inl e \<Rightarrow> Inl e
      | Inr c \<Rightarrow> Inr (if c then 1 else 0))"

definition at_um :: "('k, 'v) UnorderedMap \<Rightarrow> 'k \<Rightarrow> error + 'v" where
  "at_um t key =
     (case find_um t key of
        Inl e \<Rightarrow> Inl e
      | Inr it \<Rightarrow>
          (if iterator_eq t it (end_um t) then Inl KeyNotFound
           else (case deref t it of Inl e \<Rightarrow> Inl e | Inr kv \<Rightarrow> Inr (snd kv))))"

definition subscript ::
  "'v \<Rightarrow> ('k, 'v) UnorderedMap \<Rightarrow> 'k \<Rightarrow> error + (('k, 'v) UnorderedMap \<times> 'v)" where
  \<comment> \<open>\<^verbatim>\<open>operator[]\<close>; \<open>dflt\<close> is the value-initialised \<^verbatim>\<open>T{}\<close>\<close>
  "subscript dflt t key =
     (case insert_um t (key, dflt) of
        Inl e \<Rightarrow> Inl e
      | Inr (t', it, inserted) \<Rightarrow>
          (case deref t' it of Inl e \<Rightarrow> Inl e | Inr kv \<Rightarrow> Inr (t', snd kv)))"

definition assign_value ::
  "('k, 'v) UnorderedMap \<Rightarrow> iterator \<Rightarrow> 'v \<Rightarrow> error + ('k, 'v) UnorderedMap" where
  \<comment> \<open>a write through the reference that \<^verbatim>\<open>operator[]\<close>, \<^verbatim>\<open>at\<close> or \<^verbatim>\<open>it->second\<close>
      returns, as in \<^verbatim>\<open>m1["three"] = 3\<close>; the key is \<^verbatim>\<open>const\<close>\<close>
  "assign_value t it v =
     (case deref t it of
        Inl e \<Rightarrow> Inl e
      | Inr kv \<Rightarrow>
          Inr (t\<lparr> buckets_m := (buckets_m t)[bucket_index_m it :=
                     (buckets_m t ! bucket_index_m it)[list_it_m it := (fst kv, v)]] \<rparr>))"

subsection \<open>Iteration\<close>

function begin_loop :: "('k, 'v) UnorderedMap \<Rightarrow> nat \<Rightarrow> iterator" where
  "begin_loop t i =
     (if i < length (buckets_m t)
      then (if buckets_m t ! i \<noteq> [] then \<lparr> bucket_index_m = i, list_it_m = 0 \<rparr>
            else begin_loop t (Suc i))
      else end_um t)"
  by pat_completeness auto
termination
  by (relation "measure (\<lambda>(t, i). length (buckets_m t) - i)") auto

declare begin_loop.simps [simp del]

definition begin_um :: "('k, 'v) UnorderedMap \<Rightarrow> iterator" where
  "begin_um t = begin_loop t 0"

text \<open>
  The \<^verbatim>\<open>while\<close> loop of \<^verbatim>\<open>advance()\<close>, on the bucket index and the list position.
  Past the last bucket the list iterator keeps the value it had.
\<close>

function advance_loop :: "('k, 'v) UnorderedMap \<Rightarrow> nat \<Rightarrow> nat \<Rightarrow> iterator" where
  "advance_loop t bi li =
     (if bi < length (buckets_m t) \<and> li = length (buckets_m t ! bi)
      then advance_loop t (Suc bi) (if Suc bi < length (buckets_m t) then 0 else li)
      else \<lparr> bucket_index_m = bi, list_it_m = li \<rparr>)"
  by pat_completeness auto
termination
  by (relation "measure (\<lambda>(t, bi, li). length (buckets_m t) - bi)") auto

declare advance_loop.simps [simp del]

definition advance :: "('k, 'v) UnorderedMap \<Rightarrow> iterator \<Rightarrow> error + iterator" where
  \<comment> \<open>\<^verbatim>\<open>++list_it_\<close> needs a list iterator that denotes an element\<close>
  "advance t it =
     (if bucket_index_m it \<ge> length (buckets_m t) then Inr it
      else if list_it_m it \<ge> length (buckets_m t ! bucket_index_m it) then Inl InvalidIterator
      else Inr (advance_loop t (bucket_index_m it) (Suc (list_it_m it))))"

definition remaining :: "('k, 'v) UnorderedMap \<Rightarrow> iterator \<Rightarrow> nat" where
  \<comment> \<open>the number of entries from an iterator's position to the end of the table\<close>
  "remaining t it =
     (if bucket_index_m it < length (buckets_m t)
      then length (concat (drop (bucket_index_m it) (buckets_m t))) - list_it_m it
      else 0)"

text \<open>
  The traversal \<^verbatim>\<open>for (auto it = m.begin(); it != m.end(); ++it)\<close> of main.cpp,
  collecting \<^verbatim>\<open>*it\<close> at every step. It terminates because every step that neither
  fails nor stops leaves fewer entries ahead of the iterator.
\<close>

function traverse_from ::
  "('k, 'v) UnorderedMap \<Rightarrow> iterator \<Rightarrow> ('k \<times> 'v) list \<Rightarrow> error + ('k \<times> 'v) list" where
  "traverse_from t it acc =
     (if iterator_eq t it (end_um t) then Inr acc
      else (case deref t it of
              Inl e \<Rightarrow> Inl e
            | Inr kv \<Rightarrow>
                (case advance t it of
                   Inl e \<Rightarrow> Inl e
                 | Inr it' \<Rightarrow> traverse_from t it' (acc @ [kv]))))"
  by pat_completeness auto
termination
proof (relation "measure (\<lambda>(t, it, acc). remaining t it)")
  show "wf (measure (\<lambda>(t, it, acc). remaining t it))"
    by simp
next
  fix t :: "('k, 'v) UnorderedMap" and it :: iterator and acc :: "('k \<times> 'v) list"
    and kv :: "'k \<times> 'v" and it' :: iterator
  assume d: "deref t it = Inr kv" and a: "advance t it = Inr it'"
  have loop: "bi < length (buckets_m u) \<Longrightarrow> li \<le> length (buckets_m u ! bi) \<Longrightarrow>
      remaining u (advance_loop u bi li) \<le> length (concat (drop bi (buckets_m u))) - li"
    for u :: "('k, 'v) UnorderedMap" and bi li
  proof (induction u bi li rule: advance_loop.induct)
    case (1 u bi li)
    let ?bs = "buckets_m u"
    from "1.prems" have dr: "drop bi ?bs = ?bs ! bi # drop (Suc bi) ?bs"
      by (simp add: Cons_nth_drop_Suc)
    show ?case
    proof (cases "li = length (?bs ! bi)")
      case eq: True
      show ?thesis
      proof (cases "Suc bi < length ?bs")
        case True
        with "1.prems" eq
        have "remaining u (advance_loop u (Suc bi) 0) \<le> length (concat (drop (Suc bi) ?bs)) - 0"
          using "1.IH" by simp
        moreover have "advance_loop u bi li = advance_loop u (Suc bi) 0"
          using "1.prems" eq True by (subst advance_loop.simps) simp
        ultimately show ?thesis
          using eq dr by simp
      next
        case False
        have "advance_loop u bi li = advance_loop u (Suc bi) li"
          using "1.prems" eq False by (subst advance_loop.simps) simp
        also have "\<dots> = \<lparr> bucket_index_m = Suc bi, list_it_m = li \<rparr>"
          using False by (subst advance_loop.simps) simp
        finally show ?thesis
          using False by (simp add: remaining_def)
      qed
    next
      case False
      then have "advance_loop u bi li = \<lparr> bucket_index_m = bi, list_it_m = li \<rparr>"
        by (subst advance_loop.simps) simp
      then show ?thesis
        using "1.prems" by (simp add: remaining_def)
    qed
  qed
  let ?bs = "buckets_m t"
  let ?bi = "bucket_index_m it"
  let ?li = "list_it_m it"
  from d have v: "?bi < length ?bs" "?li < length (?bs ! ?bi)"
    by (auto simp: deref_def split: if_splits)
  with a have it': "it' = advance_loop t ?bi (Suc ?li)"
    by (simp add: advance_def)
  have "drop ?bi ?bs = ?bs ! ?bi # drop (Suc ?bi) ?bs"
    using v by (simp add: Cons_nth_drop_Suc)
  then have len: "?li < length (concat (drop ?bi ?bs))"
    using v by simp
  have "remaining t it' \<le> length (concat (drop ?bi ?bs)) - Suc ?li"
    unfolding it' using v by (intro loop) simp_all
  also have "\<dots> < length (concat (drop ?bi ?bs)) - ?li"
    using len by simp
  also have "\<dots> = remaining t it"
    using v by (simp add: remaining_def)
  finally show "((t, it', acc @ [kv]), (t, it, acc)) \<in> measure (\<lambda>(t, it, acc). remaining t it)"
    by simp
qed

declare traverse_from.simps [simp del]

definition traverse :: "('k, 'v) UnorderedMap \<Rightarrow> error + ('k \<times> 'v) list" where
  "traverse t = traverse_from t (begin_um t) []"

subsection \<open>Construction, assignment, swap\<close>

text \<open>
  The loop \<^verbatim>\<open>for (auto& kv : init) insert(kv)\<close>, and the nested loops of the copy
  operations over the buckets of the source.
\<close>

fun insert_each ::
  "('k, 'v) UnorderedMap \<Rightarrow> ('k \<times> 'v) list \<Rightarrow> error + ('k, 'v) UnorderedMap" where
  "insert_each t [] = Inr t"
| "insert_each t (kv # rest) =
     (case insert_um t kv of
        Inl e \<Rightarrow> Inl e
      | Inr (t', it, inserted) \<Rightarrow> insert_each t' rest)"

fun insert_buckets ::
  "('k, 'v) UnorderedMap \<Rightarrow> ('k \<times> 'v) list list \<Rightarrow> error + ('k, 'v) UnorderedMap" where
  "insert_buckets t [] = Inr t"
| "insert_buckets t (bkt # rest) =
     (case insert_each t bkt of
        Inl e \<Rightarrow> Inl e
      | Inr t' \<Rightarrow> insert_buckets t' rest)"

definition UnorderedMap_init ::
  "('k \<times> 'v) list \<Rightarrow> nat \<Rightarrow> ('k \<Rightarrow> nat) \<Rightarrow> ('k \<Rightarrow> 'k \<Rightarrow> bool)
     \<Rightarrow> error + ('k, 'v) UnorderedMap" where
  \<comment> \<open>the initializer-list constructor\<close>
  "UnorderedMap_init init bucket_count_arg hash equal =
     insert_each (UnorderedMap_ctor bucket_count_arg hash equal) init"

definition UnorderedMap_copy :: "('k, 'v) UnorderedMap \<Rightarrow> error + ('k, 'v) UnorderedMap" where
  \<comment> \<open>the copy constructor\<close>
  "UnorderedMap_copy other =
     insert_buckets
       \<lparr> buckets_m = replicate (length (buckets_m other)) [], num_elements_m = 0,
         max_load_factor_m = max_load_factor_m other, hasher_m = hasher_m other,
         equal_m = equal_m other \<rparr>
       (buckets_m other)"

text \<open>
  The move operations return the new table and what is left of the source: a
  \<^verbatim>\<open>std::vector\<close> that has been moved from is empty (the standard says so for the
  move constructor, and the move assignment with \<^verbatim>\<open>std::allocator\<close> hands the storage
  over in the same way), and the counter is reset. A policy object that has been moved
  from is taken to be unchanged.
\<close>

definition UnorderedMap_move ::
  "('k, 'v) UnorderedMap \<Rightarrow> ('k, 'v) UnorderedMap \<times> ('k, 'v) UnorderedMap" where
  \<comment> \<open>the move constructor: (the new table, the source afterwards)\<close>
  "UnorderedMap_move other =
     (\<lparr> buckets_m = buckets_m other, num_elements_m = num_elements_m other,
        max_load_factor_m = max_load_factor_m other, hasher_m = hasher_m other,
        equal_m = equal_m other \<rparr>,
      other\<lparr> buckets_m := [], num_elements_m := 0 \<rparr>)"

definition assign_copy ::
  "('k, 'v) UnorderedMap \<Rightarrow> ('k, 'v) UnorderedMap \<Rightarrow> error + ('k, 'v) UnorderedMap" where
  \<comment> \<open>\<^verbatim>\<open>operator=(const UnorderedMap&)\<close> from another object; self-assignment changes nothing\<close>
  "assign_copy t other =
     (let t1 = clear t;
          t2 = t1\<lparr> hasher_m := hasher_m other, equal_m := equal_m other \<rparr>;
          t3 = t2\<lparr> max_load_factor_m := max_load_factor_m other \<rparr>;
          t4 = t3\<lparr> buckets_m := replicate (length (buckets_m other)) [] \<rparr>
      in insert_buckets t4 (buckets_m other))"

definition assign_move ::
  "('k, 'v) UnorderedMap \<Rightarrow> ('k, 'v) UnorderedMap
     \<Rightarrow> ('k, 'v) UnorderedMap \<times> ('k, 'v) UnorderedMap" where
  \<comment> \<open>\<^verbatim>\<open>operator=(UnorderedMap&&)\<close> from another object: (this table, the source afterwards)\<close>
  "assign_move t other =
     (t\<lparr> buckets_m := buckets_m other, num_elements_m := num_elements_m other,
         max_load_factor_m := max_load_factor_m other, hasher_m := hasher_m other,
         equal_m := equal_m other \<rparr>,
      other\<lparr> buckets_m := [], num_elements_m := 0 \<rparr>)"

definition assign_init ::
  "('k, 'v) UnorderedMap \<Rightarrow> ('k \<times> 'v) list \<Rightarrow> error + ('k, 'v) UnorderedMap" where
  \<comment> \<open>\<^verbatim>\<open>operator=(std::initializer_list<value_type>)\<close>\<close>
  "assign_init t init = insert_each (clear t) init"

definition swap_um ::
  "('k, 'v) UnorderedMap \<Rightarrow> ('k, 'v) UnorderedMap
     \<Rightarrow> ('k, 'v) UnorderedMap \<times> ('k, 'v) UnorderedMap" where
  \<comment> \<open>(this table, the other table) after the five member swaps\<close>
  "swap_um t other =
     (t\<lparr> buckets_m := buckets_m other, num_elements_m := num_elements_m other,
         max_load_factor_m := max_load_factor_m other, hasher_m := hasher_m other,
         equal_m := equal_m other \<rparr>,
      other\<lparr> buckets_m := buckets_m t, num_elements_m := num_elements_m t,
             max_load_factor_m := max_load_factor_m t, hasher_m := hasher_m t,
             equal_m := equal_m t \<rparr>)"

subsection \<open>The policy objects of README.md\<close>

text \<open>
  \<^verbatim>\<open>StringHash\<close> and \<^verbatim>\<open>StringEqual\<close>, the custom policies the README gives for
  \<^verbatim>\<open>std::string\<close> keys: \<^verbatim>\<open>hash = hash * 31 + c\<close> over the characters, in
  \<^verbatim>\<open>size_t\<close> arithmetic (modulo \<open>2^64\<close>). A \<^verbatim>\<open>char\<close> above 127 is negative where
  \<^verbatim>\<open>char\<close> is signed, and is sign-extended by the conversion.
\<close>

definition char_to_size_t :: "char \<Rightarrow> nat" where
  "char_to_size_t c = (if of_char c < (128::nat) then of_char c else 2 ^ 64 - 256 + of_char c)"

definition StringHash :: "string \<Rightarrow> nat" where
  "StringHash s = foldl (\<lambda>hash c. (hash * 31 + char_to_size_t c) mod 2 ^ 64) 0 s"

definition StringEqual :: "string \<Rightarrow> string \<Rightarrow> bool" where
  "StringEqual s1 s2 = (s1 = s2)"

subsection \<open>Observations used by the properties\<close>

text \<open>
  \<open>sum_bucket_sizes\<close> adds \<^verbatim>\<open>bucket_size(i)\<close> over every bucket index, as a caller
  of the public interface would.
\<close>

fun sum_results :: "(error + nat) list \<Rightarrow> error + nat" where
  "sum_results [] = Inr 0"
| "sum_results (r # rs) =
     (case r of
        Inl e \<Rightarrow> Inl e
      | Inr n \<Rightarrow> (case sum_results rs of Inl e \<Rightarrow> Inl e | Inr m \<Rightarrow> Inr (n + m)))"

definition sum_bucket_sizes :: "('k, 'v) UnorderedMap \<Rightarrow> error + nat" where
  "sum_bucket_sizes t = sum_results (map (bucket_size t) [0..<bucket_count t])"

definition entries :: "('k, 'v) UnorderedMap \<Rightarrow> ('k \<times> 'v) multiset" where
  \<comment> \<open>the stored pairs, without their placement\<close>
  "entries t = mset (concat (buckets_m t))"

text \<open>
  The requirements of the standard on the two policy types: the predicate is an
  equivalence, and keys it identifies have one hash value.
\<close>

definition policy_ok :: "('k \<Rightarrow> nat) \<Rightarrow> ('k \<Rightarrow> 'k \<Rightarrow> bool) \<Rightarrow> bool" where
  "policy_ok h eq =
     ((\<forall>a. eq a a) \<and> (\<forall>a b. eq a b \<longrightarrow> eq b a) \<and>
      (\<forall>a b c. eq a b \<longrightarrow> eq b c \<longrightarrow> eq a c) \<and>
      (\<forall>a b. eq a b \<longrightarrow> h a = h b))"

text \<open>The three parts of the representation invariant of section 3 of the specification.\<close>

definition size_ok :: "('k, 'v) UnorderedMap \<Rightarrow> bool" where
  "size_ok t = (num_elements_m t = length (concat (buckets_m t)))"

definition placed :: "('k \<Rightarrow> nat) \<Rightarrow> ('k \<times> 'v) list list \<Rightarrow> bool" where
  "placed h bs = (\<forall>i < length bs. \<forall>e \<in> set (bs ! i). h (fst e) mod length bs = i)"

definition unique_keys :: "('k \<Rightarrow> 'k \<Rightarrow> bool) \<Rightarrow> ('k \<times> 'v) multiset \<Rightarrow> bool" where
  "unique_keys eq E = (\<forall>e \<in># E. size (filter_mset (\<lambda>e'. eq (fst e') (fst e)) E) \<le> 1)"

definition invar :: "('k, 'v) UnorderedMap \<Rightarrow> bool" where
  "invar t =
     (size_ok t \<and> placed (hasher_m t) (buckets_m t) \<and> unique_keys (equal_m t) (entries t))"

definition valid_iterator :: "('k, 'v) UnorderedMap \<Rightarrow> iterator \<Rightarrow> bool" where
  \<comment> \<open>the end iterator, or an iterator at an entry\<close>
  "valid_iterator t it =
     (bucket_index_m it \<le> length (buckets_m t) \<and>
      (bucket_index_m it < length (buckets_m t) \<longrightarrow>
         list_it_m it < length (buckets_m t ! bucket_index_m it)))"

definition entries_from :: "('k, 'v) UnorderedMap \<Rightarrow> iterator \<Rightarrow> ('k \<times> 'v) list" where
  \<comment> \<open>the entries from an iterator's position to the end of the table, in bucket order\<close>
  "entries_from t it =
     (if bucket_index_m it < length (buckets_m t)
      then drop (list_it_m it) (buckets_m t ! bucket_index_m it) @
           concat (drop (Suc (bucket_index_m it)) (buckets_m t))
      else [])"

definition has_key :: "('k, 'v) UnorderedMap \<Rightarrow> 'k \<Rightarrow> bool" where
  \<comment> \<open>some stored entry has a key that the predicate identifies with \<open>k\<close>\<close>
  "has_key t k = (\<exists>e \<in> set (concat (buckets_m t)). equal_m t (fst e) k)"

text \<open>
  The tables a program can build: every constructor, and every member function applied
  to tables already built, where it returns.
\<close>

inductive reachable :: "('k, 'v) UnorderedMap \<Rightarrow> bool" where
  r_ctor: "reachable (UnorderedMap_ctor n h eq)"
| r_init: "UnorderedMap_init init n h eq = Inr t \<Longrightarrow> reachable t"
| r_copy: "reachable other \<Longrightarrow> UnorderedMap_copy other = Inr t \<Longrightarrow> reachable t"
| r_move: "reachable other \<Longrightarrow> reachable (fst (UnorderedMap_move other))"
| r_moved_from: "reachable other \<Longrightarrow> reachable (snd (UnorderedMap_move other))"
| r_assign_copy:
    "reachable t \<Longrightarrow> reachable other \<Longrightarrow> assign_copy t other = Inr t' \<Longrightarrow> reachable t'"
| r_assign_move:
    "reachable t \<Longrightarrow> reachable other \<Longrightarrow> reachable (fst (assign_move t other))"
| r_assign_moved_from:
    "reachable t \<Longrightarrow> reachable other \<Longrightarrow> reachable (snd (assign_move t other))"
| r_assign_init: "reachable t \<Longrightarrow> assign_init t init = Inr t' \<Longrightarrow> reachable t'"
| r_clear: "reachable t \<Longrightarrow> reachable (clear t)"
| r_insert: "reachable t \<Longrightarrow> insert_um t kv = Inr (t', it, b) \<Longrightarrow> reachable t'"
| r_emplace: "reachable t \<Longrightarrow> emplace t k v = Inr (t', it, b) \<Longrightarrow> reachable t'"
| r_subscript: "reachable t \<Longrightarrow> subscript dflt t k = Inr (t', v) \<Longrightarrow> reachable t'"
| r_assign_value: "reachable t \<Longrightarrow> assign_value t it v = Inr t' \<Longrightarrow> reachable t'"
| r_erase: "reachable t \<Longrightarrow> erase t k = Inr (t', c) \<Longrightarrow> reachable t'"
| r_swap: "reachable t \<Longrightarrow> reachable other \<Longrightarrow> reachable (fst (swap_um t other))"
| r_swapped: "reachable t \<Longrightarrow> reachable other \<Longrightarrow> reachable (snd (swap_um t other))"
| r_max_load_factor: "reachable t \<Longrightarrow> set_max_load_factor t ml = Inr t' \<Longrightarrow> reachable t'"
| r_rehash: "reachable t \<Longrightarrow> rehash t n = Inr t' \<Longrightarrow> reachable t'"

text \<open>
  The bucket count that the growth checks of \<open>k\<close> insertions of new keys leave, from
  \<open>n\<close> entries in \<open>b\<close> buckets with threshold \<open>ml\<close>: the check of \<^verbatim>\<open>insert\<close> on
  the counters alone, each insertion adding one entry.
\<close>

fun grown_bucket_count :: "float \<Rightarrow> nat \<Rightarrow> nat \<Rightarrow> nat \<Rightarrow> nat" where
  "grown_bucket_count ml b n 0 = b"
| "grown_bucket_count ml b n (Suc k) =
     grown_bucket_count ml (if float_gt (float_div n b) ml then b * 2 else b) (Suc n) k"

subsection \<open>A table for the examples\<close>

text \<open>
  The table that \<^verbatim>\<open>UnorderedMap<std::string,int,StringHash,StringEqual>
  m{{"one",1},{"two",2},{"A",10}}\<close> builds on two buckets: the hash values are
  110182, 115276 and 65.
\<close>

definition demo :: "(string, nat) UnorderedMap" where
  "demo = \<lparr> buckets_m = [[(''one'', 1), (''two'', 2)], [(''A'', 10)]], num_elements_m = 3,
            max_load_factor_m = Num 1, hasher_m = StringHash, equal_m = StringEqual \<rparr>"

subsection \<open>The keys "a" to "q"\<close>

text \<open>
  The seventeen one-letter keys of the scenario of section 8 of the specification, the
  pairs that give key number \<open>i\<close> the value \<open>i\<close>, and the table that inserting these
  pairs one after the other into \<^verbatim>\<open>UnorderedMap<std::string,int,StringHash,StringEqual>
  m(16)\<close> produces: the hash of a one-letter string is the code of the letter, 97 for "a"
  to 113 for "q", so "p" lands in bucket 0 and "a" and "q" share bucket 1.
\<close>

definition keys_a_to_q :: "string list" where
  "keys_a_to_q =
     [''a'', ''b'', ''c'', ''d'', ''e'', ''f'', ''g'', ''h'', ''i'', ''j'', ''k'', ''l'', ''m'',
      ''n'', ''o'', ''p'', ''q'']"

definition pairs_a_to_q :: "(string \<times> nat) list" where
  "pairs_a_to_q =
     [(''a'', 1), (''b'', 2), (''c'', 3), (''d'', 4), (''e'', 5), (''f'', 6), (''g'', 7),
      (''h'', 8), (''i'', 9), (''j'', 10), (''k'', 11), (''l'', 12), (''m'', 13), (''n'', 14),
      (''o'', 15), (''p'', 16), (''q'', 17)]"

definition table_a_to_q :: "(string, nat) UnorderedMap" where
  "table_a_to_q =
     \<lparr> buckets_m =
      [[(''p'', 16)],
       [(''a'', 1), (''q'', 17)],
       [(''b'', 2)],
       [(''c'', 3)],
       [(''d'', 4)],
       [(''e'', 5)],
       [(''f'', 6)],
       [(''g'', 7)],
       [(''h'', 8)],
       [(''i'', 9)],
       [(''j'', 10)],
       [(''k'', 11)],
       [(''l'', 12)],
       [(''m'', 13)],
       [(''n'', 14)],
       [(''o'', 15)]],
       num_elements_m = 17, max_load_factor_m = Num 1, hasher_m = StringHash,
       equal_m = StringEqual \<rparr>"

section \<open>Properties\<close>

subsection \<open>Single-precision arithmetic\<close>

lemma floor_rat_numeral:
  "\<lfloor>numeral a / numeral b :: rat\<rfloor> = numeral a div numeral b"
  using floor_divide_of_int_eq [of "numeral a" "numeral b", where ?'a = rat] by simp

lemmas float_eval = round_pos.simps round_to_even_def floor_rat_numeral

lemma round_to_even_bounds:
  "of_int (round_to_even x) \<le> x + 1 / 2" "x - 1 / 2 \<le> of_int (round_to_even x)"
  unfolding round_to_even_def by (auto; linarith)+

lemma round_to_even_int [simp]: "round_to_even (of_int m) = m"
  by (simp add: round_to_even_def)

lemma round_to_even_mono:
  assumes "x \<le> y"
  shows "round_to_even x \<le> round_to_even y"
proof (rule ccontr)
  assume "\<not> ?thesis"
  then have lt: "round_to_even y + 1 \<le> round_to_even x"
    by simp
  then have "(of_int (round_to_even y) :: rat) + 1 \<le> of_int (round_to_even x)"
    by (metis of_int_1 of_int_add of_int_le_iff)
  with round_to_even_bounds(1) [of x] round_to_even_bounds(2) [of y] assms
  have xy: "x = y" and rx: "of_int (round_to_even x) = x + 1 / 2"
    by linarith+
  with lt show False by simp
qed

lemma round_pos_double:
  assumes "0 < x"
  shows "round_pos (2 * x) = 2 * round_pos x"
proof (cases "x < 2 ^ 23")
  case True
  with assms show ?thesis
    by (subst (2) round_pos.simps) simp
next
  case False
  with assms show ?thesis
    by (subst round_pos.simps) simp
qed

lemma round_pos_half:
  assumes "0 < x"
  shows "round_pos (x / 2) = round_pos x / 2"
  using round_pos_double [of "x / 2"] assms by simp

lemma round_pos_base:
  assumes "2 ^ 23 \<le> x" "x < 2 ^ 24"
  shows "round_pos x = of_int (round_to_even x)"
  using assms by (subst round_pos.simps) simp

lemma round_to_even_ge:
  assumes "of_int m \<le> x"
  shows "m \<le> round_to_even x"
  using round_to_even_mono [OF assms] by simp

lemma round_to_even_le:
  assumes "x \<le> of_int m"
  shows "round_to_even x \<le> m"
  using round_to_even_mono [OF assms] by simp

lemma round_pos_le_pow:
  "0 < x \<Longrightarrow> x \<le> 2 ^ 23 \<Longrightarrow> round_pos x \<le> 2 ^ 23"
proof (induction x rule: round_pos.induct)
  case (1 x)
  show ?case
  proof (cases "x < 2 ^ 23")
    case lt: True
    have r: "round_pos x = round_pos (2 * x) / 2"
      using 1(3) lt by (subst round_pos.simps) simp
    show ?thesis
    proof (cases "2 * x \<le> 2 ^ 23")
      case True
      from 1(1) [OF _ lt _ True] 1(3) have "round_pos (2 * x) \<le> 2 ^ 23"
        by simp
      with r show ?thesis by simp
    next
      case False
      then have b: "2 ^ 23 \<le> 2 * x" "2 * x < 2 ^ 24"
        using lt by simp_all
      have "2 * x \<le> of_int (2 ^ 24)"
        using b by simp
      from round_to_even_le [OF this] have "(of_int (round_to_even (2 * x)) :: rat) \<le> of_int (2 ^ 24)"
        by (simp only: of_int_le_iff)
      with round_pos_base [OF b] r show ?thesis
        by simp
    qed
  next
    case False
    with 1(4) have "x = 2 ^ 23" by simp
    then have "x = of_int (2 ^ 23)" by simp
    then have "round_to_even x = 2 ^ 23"
      by (simp only: round_to_even_int)
    with round_pos_base [of x] \<open>x = 2 ^ 23\<close> show ?thesis
      by simp
  qed
qed

lemma round_pos_ge_pow:
  assumes "2 ^ 23 \<le> x" "x < 2 ^ 24"
  shows "2 ^ 23 \<le> round_pos x"
proof -
  have "of_int (2 ^ 23) \<le> x"
    using assms by simp
  from round_to_even_ge [OF this] have "(of_int (2 ^ 23) :: rat) \<le> of_int (round_to_even x)"
    by (simp only: of_int_le_iff)
  with round_pos_base [OF assms] show ?thesis
    by simp
qed

lemma round_pos_mono_aux:
  "\<forall>x. 0 < x \<and> x \<le> y \<longrightarrow> round_pos x \<le> round_pos y"
proof (induction y rule: round_pos.induct)
  case (1 y)
  show ?case
  proof (intro allI impI)
    fix x assume x: "0 < x \<and> x \<le> y"
    then have y: "0 < y" by simp
    consider "y < 2 ^ 23" | "2 ^ 24 \<le> y" | "2 ^ 23 \<le> y" "y < 2 ^ 24"
      by linarith
    then show "round_pos x \<le> round_pos y"
    proof cases
      case 1
      from \<open>\<not> y \<le> 0 \<Longrightarrow> y < 2 ^ 23 \<Longrightarrow> \<forall>x. 0 < x \<and> x \<le> 2 * y \<longrightarrow> round_pos x \<le> round_pos (2 * y)\<close> y 1
      have "round_pos (2 * x) \<le> round_pos (2 * y)"
        using x by simp
      then show ?thesis
        using x y by (simp add: round_pos_double)
    next
      case 2
      from \<open>\<not> y \<le> 0 \<Longrightarrow> \<not> y < 2 ^ 23 \<Longrightarrow> 2 ^ 24 \<le> y \<Longrightarrow> \<forall>x. 0 < x \<and> x \<le> y / 2 \<longrightarrow> round_pos x \<le> round_pos (y / 2)\<close> y 2
      have "round_pos (x / 2) \<le> round_pos (y / 2)"
        using x by simp
      then show ?thesis
        using x y by (simp add: round_pos_half)
    next
      case 3
      show ?thesis
      proof (cases "x < 2 ^ 23")
        case True
        with x have "round_pos x \<le> 2 ^ 23"
          by (intro round_pos_le_pow) simp_all
        also have "\<dots> \<le> round_pos y"
          using 3 by (rule round_pos_ge_pow)
        finally show ?thesis .
      next
        case False
        then have bx: "2 ^ 23 \<le> x" "x < 2 ^ 24"
          using x 3 by simp_all
        have "round_to_even x \<le> round_to_even y"
          using x by (intro round_to_even_mono) simp
        then show ?thesis
          by (simp add: round_pos_base [OF bx] round_pos_base [OF 3])
      qed
    qed
  qed
qed

lemma round_pos_zero [simp]: "x \<le> 0 \<Longrightarrow> round_pos x = 0"
  by (subst round_pos.simps) simp

lemma round_pos_pos: "0 < x \<Longrightarrow> 0 < round_pos x"
proof (induction x rule: round_pos.induct)
  case (1 x)
  consider "x < 2 ^ 23" | "2 ^ 24 \<le> x" | "2 ^ 23 \<le> x" "x < 2 ^ 24"
    by linarith
  then show ?case
  proof cases
    case 1
    with "1.IH"(1) "1.prems" have "0 < round_pos (2 * x)"
      by simp
    then show ?thesis
      using "1.prems" by (simp add: round_pos_double)
  next
    case 2
    with "1.IH"(2) "1.prems" have "0 < round_pos (x / 2)"
      by simp
    then show ?thesis
      using "1.prems" by (simp add: round_pos_half)
  next
    case 3
    from round_pos_ge_pow [OF 3] show ?thesis
      by simp
  qed
qed

lemma round_pos_mono:
  assumes "x \<le> y"
  shows "round_pos x \<le> round_pos y"
proof (cases "0 < x")
  case True
  with round_pos_mono_aux [of y] assms show ?thesis by blast
next
  case False
  then have "round_pos x = 0" by simp
  moreover have "0 \<le> round_pos y"
    using round_pos_pos [of y] by (cases "0 < y") simp_all
  ultimately show ?thesis by simp
qed

lemma round_pos_of_nat:
  "x = of_nat n \<Longrightarrow> n \<le> 2 ^ 24 \<Longrightarrow> round_pos x = x"
proof (induction x arbitrary: n rule: round_pos.induct)
  case (1 x)
  consider "x \<le> 0" | "0 < x" "x < 2 ^ 23" | "2 ^ 24 \<le> x" | "2 ^ 23 \<le> x" "x < 2 ^ 24"
    by linarith
  then show ?case
  proof cases
    case 1
    with "1.prems" show ?thesis by simp
  next
    case 2
    have "2 * x = of_nat (2 * n)"
      using "1.prems" by simp
    moreover have "2 * n \<le> 2 ^ 24"
    proof -
      have "(of_nat n :: rat) < of_nat (2 ^ 23)"
        using 2 "1.prems" by simp
      then have "n < 2 ^ 23"
        by (simp only: of_nat_less_iff)
      then show ?thesis by simp
    qed
    moreover have "\<not> x \<le> 0"
      using 2 by simp
    ultimately have "round_pos (2 * x) = 2 * x"
      using "1.IH"(1) [of "2 * n"] 2(2) by blast
    then show ?thesis
      using 2 by (simp add: round_pos_double)
  next
    case 3
    have "(of_nat n :: rat) \<le> of_nat (2 ^ 24)"
      using "1.prems"(2) by (simp only: of_nat_le_iff)
    with 3 "1.prems" have x: "x = 2 ^ 24"
      by simp
    have "round_pos (2 ^ 23) = of_int (round_to_even (of_int (2 ^ 23)))"
      using round_pos_base [of "2 ^ 23"] by simp
    then have "round_pos (2 ^ 23) = 2 ^ 23"
      by (simp only: round_to_even_int) simp
    then show ?thesis
      using round_pos_double [of "2 ^ 23"] x by simp
  next
    case 4
    have "round_to_even x = int n"
      using "1.prems" round_to_even_int [of "int n"] by simp
    with round_pos_base [OF 4] "1.prems" show ?thesis
      by simp
  qed
qed

lemma float_of_size_t_exact: "n \<le> 2 ^ 24 \<Longrightarrow> float_of_size_t n = of_nat n"
  unfolding float_of_size_t_def by (rule round_pos_of_nat [OF refl])

lemma float_of_size_t_mono: "m \<le> n \<Longrightarrow> float_of_size_t m \<le> float_of_size_t n"
  unfolding float_of_size_t_def by (intro round_pos_mono) simp

lemma float_of_size_t_pos: "0 < n \<Longrightarrow> 0 < float_of_size_t n"
  unfolding float_of_size_t_def by (intro round_pos_pos) simp


lemma float_div_mono:
  assumes "0 < d" "m \<le> n"
  shows "float_le (float_div m d) (float_div n d)"
proof -
  have "float_of_size_t m / float_of_size_t d \<le> float_of_size_t n / float_of_size_t d"
    using float_of_size_t_mono [OF assms(2)] float_of_size_t_pos [OF assms(1)]
    by (simp add: divide_right_mono)
  from round_pos_mono [OF this] assms(1) show ?thesis
    by (simp add: float_div_def)
qed

lemma float_div_self: "0 < d \<Longrightarrow> float_div d d = Num 1"
  using float_of_size_t_pos [of d] round_pos_of_nat [of 1 1]
  by (simp add: float_div_def)

lemma float_le_gt: "float_le x (Num a) \<Longrightarrow> \<not> float_gt x (Num a)"
  by (cases x) simp_all

lemma float_div_le_one:
  assumes "0 < d" "n \<le> d"
  shows "\<not> float_gt (float_div n d) (Num 1)"
  using float_div_mono [OF assms] float_div_self [OF assms(1)] by (simp add: float_le_gt)


lemma float_div_16:
  "float_gt (float_div m 16) (Num 1) \<longleftrightarrow> 16 < m"
proof (cases "16 < m")
  case False
  then have "m \<le> 16" by simp
  from float_div_le_one [OF _ this] False show ?thesis
    by simp
next
  case True
  then have "17 \<le> m" by simp
  from float_div_mono [OF _ this, of 16] have "float_le (float_div 17 16) (float_div m 16)"
    by simp
  moreover have "float_div 17 16 = Num (17 / 16)"
    by (simp add: float_div_def float_of_size_t_exact float_eval)
  ultimately show ?thesis
    using True by (simp add: float_div_def)
qed

lemma round_pos_above_one: "round_pos (16777216 / 16777215) = 8388609 / 8388608"
  by (simp add: float_eval)

lemma float_div_gt_one:
  assumes "0 < d" "d < 2 ^ 24"
  shows "float_gt (float_div n d) (Num 1) \<longleftrightarrow> d < n"
proof (cases "d < n")
  case False
  then have "n \<le> d" by simp
  from float_div_le_one [OF assms(1) this] False show ?thesis
    by simp
next
  case True
  then have "d + 1 \<le> n" by simp
  from float_of_size_t_mono [OF this] have "of_nat (d + 1) \<le> float_of_size_t n"
    using assms(2) by (simp add: float_of_size_t_exact)
  then have n: "of_nat d + 1 \<le> float_of_size_t n"
    by simp
  have d: "float_of_size_t d = of_nat d"
    using assms(2) by (simp add: float_of_size_t_exact)
  have dp: "(0::rat) < of_nat d"
    using assms(1) by simp
  have "(of_nat d :: rat) \<le> of_nat (2 ^ 24 - 1)"
    using assms(2) by (simp only: of_nat_le_iff)
  then have du: "(of_nat d :: rat) \<le> 16777215"
    by simp
  have "16777216 / 16777215 \<le> (of_nat d + 1) / (of_nat d :: rat)"
    using dp du by (simp add: field_simps)
  also have "\<dots> \<le> float_of_size_t n / float_of_size_t d"
    unfolding d using n dp by (simp add: divide_right_mono)
  finally have "round_pos (16777216 / 16777215) \<le> round_pos (float_of_size_t n / float_of_size_t d)"
    by (rule round_pos_mono)
  then have "1 < round_pos (float_of_size_t n / float_of_size_t d)"
    unfolding round_pos_above_one by simp
  with True assms(1) show ?thesis
    by (simp add: float_div_def)
qed

lemma float_div_0 [simp]: "float_div n 0 = (if n = 0 then NaN else PosInf)"
  by (simp add: float_div_def)

lemma float_div_exact:
  assumes "0 < d" "n \<le> 2 ^ 24" "d \<le> 2 ^ 24"
  shows "float_div n d = Num (round_pos (of_nat n / of_nat d))"
  using assms by (simp add: float_div_def float_of_size_t_exact)

text \<open>
  Seven entries in ten buckets have the load factor \<^verbatim>\<open>0.7f\<close>: the quotient is rounded
  to the number that the literal denotes, which lies below \<open>7/10\<close>.
\<close>

lemma float_div_7_10:
  "float_div 7 10 = float_lit (7 / 10)" "\<not> float_gt (float_div 7 10) (float_lit (7 / 10))"
  "float_gt (Num (7 / 10)) (float_lit (7 / 10))"
  by (simp_all add: float_div_def float_lit_def float_round_def float_of_size_t_exact
      float_eval)

subsection \<open>Bucket arrays\<close>

lemma mset_concat_update:
  "i < length bs \<Longrightarrow> mset (concat (bs[i := ys])) + mset (bs ! i) = mset (concat bs) + mset ys"
proof (induction bs arbitrary: i)
  case Nil
  then show ?case by simp
next
  case (Cons b bs)
  then show ?case by (cases i) (auto simp: ac_simps)
qed

lemma mset_concat_snoc:
  "i < length bs \<Longrightarrow> mset (concat (bs[i := bs ! i @ [x]])) = add_mset x (mset (concat bs))"
  using mset_concat_update [of i bs "bs ! i @ [x]"] by simp

lemma length_concat_update:
  "i < length bs \<Longrightarrow> length (concat (bs[i := ys])) + length (bs ! i) = length (concat bs) + length ys"
  using arg_cong [OF mset_concat_update [of i bs ys], of size] by simp

lemma rehash_bucket_ok:
  assumes "0 < n" "length nb = n"
  shows "\<exists>nb'. rehash_bucket h n es nb = Inr nb' \<and> length nb' = n \<and>
           (\<forall>j<n. nb' ! j = nb ! j @ filter (\<lambda>kv. h (fst kv) mod n = j) es)"
  using assms
proof (induction es arbitrary: nb)
  case Nil
  then show ?case by simp
next
  case (Cons kv es)
  let ?idx = "h (fst kv) mod n"
  let ?nb1 = "nb[?idx := nb ! ?idx @ [kv]]"
  have idx: "?idx < n" using Cons.prems by simp
  from Cons.IH [of ?nb1] Cons.prems obtain nb' where
    r: "rehash_bucket h n es ?nb1 = Inr nb'" and l: "length nb' = n"
    and c: "\<forall>j<n. nb' ! j = ?nb1 ! j @ filter (\<lambda>kv. h (fst kv) mod n = j) es"
    by auto
  have "nb' ! j = nb ! j @ filter (\<lambda>kv. h (fst kv) mod n = j) (kv # es)" if "j < n" for j
    using c that idx Cons.prems by (cases "j = ?idx") (auto simp: nth_list_update)
  with r l show ?case
    using Cons.prems by (simp add: Let_def)
qed

lemma rehash_buckets_ok:
  assumes "0 < n" "length nb = n"
  shows "\<exists>nb'. rehash_buckets h n bs nb = Inr nb' \<and> length nb' = n \<and>
           (\<forall>j<n. nb' ! j = nb ! j @ filter (\<lambda>kv. h (fst kv) mod n = j) (concat bs))"
  using assms
proof (induction bs arbitrary: nb)
  case Nil
  then show ?case by simp
next
  case (Cons b bs)
  from rehash_bucket_ok [OF Cons.prems, of h b] obtain nb1 where
    r1: "rehash_bucket h n b nb = Inr nb1" and l1: "length nb1 = n"
    and c1: "\<forall>j<n. nb1 ! j = nb ! j @ filter (\<lambda>kv. h (fst kv) mod n = j) b"
    by auto
  from Cons.IH [OF Cons.prems(1) l1] obtain nb' where
    r: "rehash_buckets h n bs nb1 = Inr nb'" and l: "length nb' = n"
    and c: "\<forall>j<n. nb' ! j = nb1 ! j @ filter (\<lambda>kv. h (fst kv) mod n = j) (concat bs)"
    by auto
  show ?case
    using r1 r l c c1 by simp
qed

lemma rehash_bucket_mset:
  "rehash_bucket h n es nb = Inr nb' \<Longrightarrow> length nb = n \<Longrightarrow>
   mset (concat nb') = mset (concat nb) + mset es"
proof (induction es arbitrary: nb)
  case Nil
  then show ?case by simp
next
  case (Cons kv es)
  then show ?case
    by (auto simp: Let_def mset_concat_snoc split: if_splits)
qed

lemma rehash_bucket_length:
  "rehash_bucket h n es nb = Inr nb' \<Longrightarrow> length nb' = length nb"
  by (induction es arbitrary: nb) (auto simp: Let_def split: if_splits)

lemma rehash_buckets_length:
  "rehash_buckets h n bs nb = Inr nb' \<Longrightarrow> length nb' = length nb"
  by (induction bs arbitrary: nb) (auto split: sum.splits dest: rehash_bucket_length)

lemma rehash_buckets_mset:
  "rehash_buckets h n bs nb = Inr nb' \<Longrightarrow> length nb = n \<Longrightarrow>
   mset (concat nb') = mset (concat nb) + mset (concat bs)"
proof (induction bs arbitrary: nb)
  case Nil
  then show ?case by simp
next
  case (Cons b bs)
  from Cons.prems(1) obtain nb1 where
    r1: "rehash_bucket h n b nb = Inr nb1" and r: "rehash_buckets h n bs nb1 = Inr nb'"
    by (auto split: sum.splits)
  have "length nb1 = n"
    using rehash_bucket_length [OF r1] Cons.prems(2) by simp
  from Cons.IH [OF r this] rehash_bucket_mset [OF r1 Cons.prems(2)]
  show ?case by simp
qed

lemma concat_replicate_Nil [simp]: "concat (replicate n []) = []"
  by (induction n) auto

lemma rehash_result:
  assumes "0 < n"
  shows "\<exists>nb. rehash t n = Inr (t\<lparr> buckets_m := nb \<rparr>) \<and> length nb = n \<and>
           mset (concat nb) = mset (concat (buckets_m t)) \<and>
           (\<forall>j<n. nb ! j = filter (\<lambda>kv. hasher_m t (fst kv) mod n = j) (concat (buckets_m t)))"
proof -
  from rehash_buckets_ok [OF assms, of "replicate n []" "hasher_m t" "buckets_m t"]
  obtain nb where r: "rehash_buckets (hasher_m t) n (buckets_m t) (replicate n []) = Inr nb"
    and l: "length nb = n"
    and c: "\<forall>j<n. nb ! j = replicate n [] ! j @
              filter (\<lambda>kv. hasher_m t (fst kv) mod n = j) (concat (buckets_m t))"
    by auto
  have "mset (concat nb) = mset (concat (buckets_m t))"
    using rehash_buckets_mset [OF r] by simp
  with r l c show ?thesis
    by (auto simp: rehash_def)
qed

lemma demo_hashes:
  "StringHash ''one'' = 110182" "StringHash ''two'' = 115276" "StringHash ''A'' = 65"
  by (simp_all add: StringHash_def char_to_size_t_def)

lemma list_of_length_3:
  assumes "length xs = 3"
  shows "xs = [xs ! 0, xs ! 1, xs ! 2]"
proof -
  from assms obtain a b c where "xs = [a, b, c]"
    by (auto simp: length_Suc_conv numeral_3_eq_3)
  then show ?thesis by simp
qed

subsection \<open>Explicit rehash\<close>

text \<open>
  C4. For every table and every \<open>n \<ge> 1\<close>, \<^verbatim>\<open>rehash(n)\<close> returns, with exactly \<open>n\<close>
  buckets (no rounding, no floor); the element count and the stored pairs (as a multiset,
  hence as a set) are those of before; every entry lies in bucket \<open>hash(key) mod n\<close>;
  and new bucket \<open>j\<close> holds the entries of that residue in the order of the scan of the
  old bucket array, old bucket 0 first, each old bucket front to back.
\<close>

theorem rehash_exact:
  assumes "1 \<le> n"
  shows "\<exists>t'. rehash t n = Inr t' \<and> bucket_count t' = n \<and> size_um t' = size_um t \<and>
           entries t' = entries t \<and>
           set (concat (buckets_m t')) = set (concat (buckets_m t)) \<and>
           (\<forall>j<n. \<forall>e \<in> set (buckets_m t' ! j). hasher_m t' (fst e) mod n = j) \<and>
           (\<forall>j<n. buckets_m t' ! j =
                    filter (\<lambda>kv. hasher_m t (fst kv) mod n = j) (concat (buckets_m t)))"
proof -
  from assms have "0 < n" by simp
  from rehash_result [OF this, of t] obtain nb where
    r: "rehash t n = Inr (t\<lparr> buckets_m := nb \<rparr>)" and l: "length nb = n"
    and m: "mset (concat nb) = mset (concat (buckets_m t))"
    and c: "\<forall>j<n. nb ! j = filter (\<lambda>kv. hasher_m t (fst kv) mod n = j) (concat (buckets_m t))"
    by auto
  have "set (concat nb) = set (concat (buckets_m t))"
    using m by (rule mset_eq_setD)
  with r l m c show ?thesis
    by (simp add: bucket_count_def size_um_def entries_def)
qed


theorem rehash_exact_witness:
  "(1::nat) \<le> 3 \<and>
   (\<exists>t'. rehash demo 3 = Inr t' \<and> bucket_count t' = 3 \<and> size_um t' = 3 \<and>
         buckets_m t' = [[], [(''one'', 1), (''two'', 2)], [(''A'', 10)]])"
proof -
  from rehash_exact [of 3 demo] obtain t' where
    r: "rehash demo 3 = Inr t'" and b: "bucket_count t' = 3" and s: "size_um t' = size_um demo"
    and c: "\<forall>j<3. buckets_m t' ! j =
              filter (\<lambda>kv. hasher_m demo (fst kv) mod 3 = j) (concat (buckets_m demo))"
    by auto
  have "buckets_m t' ! 0 = []" "buckets_m t' ! 1 = [(''one'', 1), (''two'', 2)]"
    "buckets_m t' ! 2 = [(''A'', 10)]"
    using c by (simp_all add: demo_def demo_hashes)
  moreover have "length (buckets_m t') = 3"
    using b by (simp add: bucket_count_def)
  ultimately have "buckets_m t' = [[], [(''one'', 1), (''two'', 2)], [(''A'', 10)]]"
    using list_of_length_3 [of "buckets_m t'"] by simp
  with r b s show ?thesis
    by (simp add: demo_def size_um_def)
qed

subsection \<open>Bucket scans, policies and unique keys\<close>

lemma scan_None_iff: "scan eq k es = None \<longleftrightarrow> (\<forall>e \<in> set es. \<not> eq (fst e) k)"
  by (induction es) auto

lemma scan_Some:
  "scan eq k es = Some p \<Longrightarrow>
   p < length es \<and> eq (fst (es ! p)) k \<and> (\<forall>j<p. \<not> eq (fst (es ! j)) k)"
proof (induction es arbitrary: p)
  case Nil
  then show ?case by simp
next
  case (Cons e es)
  show ?case
  proof (cases "eq (fst e) k")
    case True
    with Cons.prems show ?thesis by simp
  next
    case False
    with Cons.prems obtain q where q: "scan eq k es = Some q" "p = Suc q"
      by auto
    from Cons.IH [OF q(1)] False q(2) show ?thesis
      by (auto simp: less_Suc_eq_0_disj)
  qed
qed

lemma scan_Some_mem: "scan eq k es = Some p \<Longrightarrow> es ! p \<in> set es"
  by (simp add: scan_Some)

lemma in_concat_nth: "e \<in> set (concat bs) \<longleftrightarrow> (\<exists>i<length bs. e \<in> set (bs ! i))"
proof
  assume "e \<in> set (concat bs)"
  then obtain b where "b \<in> set bs" "e \<in> set b"
    by auto
  then show "\<exists>i<length bs. e \<in> set (bs ! i)"
    by (auto simp: in_set_conv_nth [of b bs])
next
  assume "\<exists>i<length bs. e \<in> set (bs ! i)"
  then obtain i where "i < length bs" "e \<in> set (bs ! i)"
    by blast
  then show "e \<in> set (concat bs)"
    using nth_mem [of i bs] by auto
qed

lemma policy_refl: "policy_ok h eq \<Longrightarrow> eq a a"
  unfolding policy_ok_def by blast

lemma policy_sym: "policy_ok h eq \<Longrightarrow> eq a b \<Longrightarrow> eq b a"
  unfolding policy_ok_def by blast

lemma policy_trans: "policy_ok h eq \<Longrightarrow> eq a b \<Longrightarrow> eq b c \<Longrightarrow> eq a c"
  unfolding policy_ok_def by blast

lemma policy_hash: "policy_ok h eq \<Longrightarrow> eq a b \<Longrightarrow> h a = h b"
  unfolding policy_ok_def by blast

text \<open>Under the policy requirements an entry that matches a key lies in the key's bucket.\<close>

lemma match_in_bucket:
  assumes "policy_ok h eq" "placed h bs" "e \<in> set (concat bs)" "eq (fst e) k"
  shows "e \<in> set (bs ! (h k mod length bs))"
proof -
  from assms(3) obtain i where i: "i < length bs" "e \<in> set (bs ! i)"
    unfolding in_concat_nth by blast
  with assms(2) have "h (fst e) mod length bs = i"
    by (auto simp: placed_def)
  moreover from assms(1,4) have "h (fst e) = h k"
    by (rule policy_hash)
  ultimately show ?thesis using i by simp
qed

lemma unique_keys_add:
  assumes "\<forall>a. eq a a" "\<forall>a b. eq a b \<longrightarrow> eq b a"
  shows "unique_keys eq (add_mset x E) \<longleftrightarrow>
           (\<forall>e \<in># E. \<not> eq (fst e) (fst x)) \<and> unique_keys eq E"
proof
  assume u: "unique_keys eq (add_mset x E)"
  have "\<not> eq (fst e) (fst x)" if "e \<in># E" for e
  proof
    assume "eq (fst e) (fst x)"
    then have m: "e \<in># filter_mset (\<lambda>e'. eq (fst e') (fst x)) E"
      using that by simp
    from u have "size (filter_mset (\<lambda>e'. eq (fst e') (fst x)) (add_mset x E)) \<le> 1"
      by (simp add: unique_keys_def)
    moreover have "filter_mset (\<lambda>e'. eq (fst e') (fst x)) (add_mset x E) =
        add_mset x (filter_mset (\<lambda>e'. eq (fst e') (fst x)) E)"
      using assms(1) by simp
    ultimately have "size (filter_mset (\<lambda>e'. eq (fst e') (fst x)) E) = 0"
      by simp
    then have "filter_mset (\<lambda>e'. eq (fst e') (fst x)) E = {#}"
      by (simp only: size_eq_0_iff_empty)
    with m show False
      by simp
  qed
  moreover have "unique_keys eq E"
    unfolding unique_keys_def
  proof
    fix e assume "e \<in># E"
    with u have "size (filter_mset (\<lambda>e'. eq (fst e') (fst e)) (add_mset x E)) \<le> 1"
      by (simp add: unique_keys_def)
    moreover have "filter_mset (\<lambda>e'. eq (fst e') (fst e)) E \<subseteq>#
        filter_mset (\<lambda>e'. eq (fst e') (fst e)) (add_mset x E)"
      by (intro multiset_filter_mono) simp
    then have "size (filter_mset (\<lambda>e'. eq (fst e') (fst e)) E) \<le>
        size (filter_mset (\<lambda>e'. eq (fst e') (fst e)) (add_mset x E))"
      by (rule size_mset_mono)
    ultimately show "size (filter_mset (\<lambda>e'. eq (fst e') (fst e)) E) \<le> 1"
      by (rule order_trans [rotated])
  qed
  ultimately show "(\<forall>e \<in># E. \<not> eq (fst e) (fst x)) \<and> unique_keys eq E"
    by simp
next
  assume a: "(\<forall>e \<in># E. \<not> eq (fst e) (fst x)) \<and> unique_keys eq E"
  show "unique_keys eq (add_mset x E)"
    unfolding unique_keys_def
  proof
    fix e assume e: "e \<in># add_mset x E"
    show "size (filter_mset (\<lambda>e'. eq (fst e') (fst e)) (add_mset x E)) \<le> 1"
    proof (cases "e \<in># E")
      case True
      with a have "\<not> eq (fst e) (fst x)" by simp
      with assms(2) have "\<not> eq (fst x) (fst e)" by blast
      moreover from a True have "size (filter_mset (\<lambda>e'. eq (fst e') (fst e)) E) \<le> 1"
        by (simp add: unique_keys_def)
      ultimately show ?thesis by simp
    next
      case False
      with e have ex: "e = x" by simp
      from a have "filter_mset (\<lambda>e'. eq (fst e') (fst x)) E = {#}"
        by simp
      then show ?thesis unfolding ex using assms(1) by simp
    qed
  qed
qed

subsection \<open>Lookup\<close>

lemma unique_keys_same:
  assumes p: "policy_ok h eq" and u: "unique_keys eq E"
    and e: "e \<in># E" "e' \<in># E" and m: "eq (fst e) k" "eq (fst e') k"
  shows "e = e'"
proof (rule ccontr)
  assume ne: "e \<noteq> e'"
  from e(1) obtain E' where E: "E = add_mset e E'"
    by (auto dest: multi_member_split)
  with e(2) ne have "e' \<in># E'"
    by auto
  moreover have "(\<forall>x \<in># E'. \<not> eq (fst x) (fst e))"
    using u unfolding E
    by (subst (asm) unique_keys_add) (use p in \<open>auto intro: policy_refl policy_sym\<close>)
  ultimately have "\<not> eq (fst e') (fst e)"
    by blast
  moreover have "eq (fst e') (fst e)"
    using p m by (blast intro: policy_sym policy_trans)
  ultimately show False by contradiction
qed

lemma bucket_subset_concat: "i < length bs \<Longrightarrow> set (bs ! i) \<subseteq> set (concat bs)"
  unfolding in_concat_nth subset_iff by blast

lemma scan_bucket_None_iff:
  assumes "policy_ok (hasher_m t) (equal_m t)" "placed (hasher_m t) (buckets_m t)"
    "0 < length (buckets_m t)"
  shows "scan (equal_m t) k (buckets_m t ! (hasher_m t k mod length (buckets_m t))) = None
           \<longleftrightarrow> \<not> has_key t k"
proof -
  let ?i = "hasher_m t k mod length (buckets_m t)"
  have i: "?i < length (buckets_m t)" using assms(3) by simp
  show ?thesis
    unfolding scan_None_iff has_key_def
    using match_in_bucket [OF assms(1,2)] bucket_subset_concat [OF i] by blast
qed

lemma scan_bucket_Some:
  assumes "policy_ok (hasher_m t) (equal_m t)" "invar t" "0 < length (buckets_m t)"
    and s: "scan (equal_m t) k (buckets_m t ! (hasher_m t k mod length (buckets_m t))) = Some p"
    and e: "e \<in> set (concat (buckets_m t))" "equal_m t (fst e) k"
  shows "buckets_m t ! (hasher_m t k mod length (buckets_m t)) ! p = e"
proof -
  let ?i = "hasher_m t k mod length (buckets_m t)"
  let ?e' = "buckets_m t ! ?i ! p"
  have i: "?i < length (buckets_m t)" using assms(3) by simp
  from scan_Some [OF s] have "?e' \<in> set (buckets_m t ! ?i)" "equal_m t (fst ?e') k"
    by simp_all
  with bucket_subset_concat [OF i] have "?e' \<in># entries t"
    by (auto simp: entries_def)
  moreover from e have "e \<in># entries t"
    by (simp add: entries_def)
  moreover from assms(2) have "unique_keys (equal_m t) (entries t)"
    by (simp add: invar_def)
  ultimately show ?thesis
    using unique_keys_same [OF assms(1), of "entries t" ?e' e k] e(2)
      \<open>equal_m t (fst ?e') k\<close> by blast
qed

lemma lookup_miss:
  assumes "policy_ok (hasher_m t) (equal_m t)" "placed (hasher_m t) (buckets_m t)"
    "0 < length (buckets_m t)" "\<not> has_key t k"
  shows "find_um t k = Inr (end_um t)" "contains t k = Inr False" "count_um t k = Inr 0"
    "at_um t k = Inl KeyNotFound"
proof -
  from scan_bucket_None_iff [OF assms(1-3), of k] assms(4)
  have "scan (equal_m t) k (buckets_m t ! (hasher_m t k mod length (buckets_m t))) = None"
    by simp
  then show f: "find_um t k = Inr (end_um t)"
    using assms(3) by (simp add: find_um_def bucket_def)
  then show c: "contains t k = Inr False"
    by (simp add: contains_def iterator_eq_def)
  then show "count_um t k = Inr 0"
    by (simp add: count_um_def)
  from f show "at_um t k = Inl KeyNotFound"
    by (simp add: at_um_def iterator_eq_def)
qed

lemma lookup_hit:
  assumes "policy_ok (hasher_m t) (equal_m t)" "invar t" "0 < length (buckets_m t)"
    and e: "e \<in> set (concat (buckets_m t))" "equal_m t (fst e) k"
  shows "\<exists>it. find_um t k = Inr it \<and> deref t it = Inr e \<and> \<not> iterator_eq t it (end_um t)"
    "contains t k = Inr True" "count_um t k = Inr 1" "at_um t k = Inr (snd e)"
proof -
  let ?i = "hasher_m t k mod length (buckets_m t)"
  have i: "?i < length (buckets_m t)" using assms(3) by simp
  from assms(2) have pl: "placed (hasher_m t) (buckets_m t)"
    by (simp add: invar_def)
  from e have "has_key t k"
    by (auto simp: has_key_def)
  with scan_bucket_None_iff [OF assms(1) pl assms(3), of k]
  obtain p where s: "scan (equal_m t) k (buckets_m t ! ?i) = Some p"
    by auto
  from scan_bucket_Some [OF assms(1-3) s e] have v: "buckets_m t ! ?i ! p = e" .
  from scan_Some [OF s] have p: "p < length (buckets_m t ! ?i)"
    by simp
  let ?it = "\<lparr> bucket_index_m = ?i, list_it_m = p \<rparr>"
  have f: "find_um t k = Inr ?it"
    using s assms(3) by (simp add: find_um_def bucket_def)
  have d: "deref t ?it = Inr e"
    using i p v by (simp add: deref_def)
  have n: "\<not> iterator_eq t ?it (end_um t)"
    using i by (simp add: iterator_eq_def end_um_def)
  from f d n show "\<exists>it. find_um t k = Inr it \<and> deref t it = Inr e \<and> \<not> iterator_eq t it (end_um t)"
    by blast
  from f n show c: "contains t k = Inr True"
    by (simp add: contains_def)
  then show "count_um t k = Inr 1"
    by (simp add: count_um_def)
  from f d n show "at_um t k = Inr (snd e)"
    by (simp add: at_um_def)
qed

subsection \<open>The growth check and insertion\<close>

lemma has_key_entries: "has_key t k \<longleftrightarrow> (\<exists>e \<in># entries t. equal_m t (fst e) k)"
  by (simp add: has_key_def entries_def)

lemma set_update_nth:
  "i < length bs \<Longrightarrow> j < length bs \<Longrightarrow> set (bs[i := ys] ! j) = (if j = i then set ys else set (bs ! j))"
  by (simp add: nth_list_update)

lemma rehash_invar:
  assumes "0 < n" "size_ok t" "unique_keys (equal_m t) (entries t)" "rehash t n = Inr t'"
  shows "invar t'"
proof -
  from rehash_result [OF assms(1), of t] assms(4) obtain nb where
    t': "t' = t\<lparr> buckets_m := nb \<rparr>" and l: "length nb = n"
    and m: "mset (concat nb) = mset (concat (buckets_m t))"
    and c: "\<forall>j<n. nb ! j = filter (\<lambda>kv. hasher_m t (fst kv) mod n = j) (concat (buckets_m t))"
    by auto
  have "length (concat nb) = length (concat (buckets_m t))"
    using arg_cong [OF m, of size] by simp
  then have "size_ok t'"
    using assms(2) by (simp add: t' size_ok_def)
  moreover have "placed (hasher_m t') (buckets_m t')"
    using c l by (simp add: t' placed_def)
  moreover have "unique_keys (equal_m t') (entries t')"
    using assms(3) m by (simp add: t' entries_def)
  ultimately show ?thesis
    by (simp add: invar_def)
qed

lemma rehash_if_needed_cases:
  obtains nb where "rehash_if_needed t = Inr (t\<lparr> buckets_m := nb \<rparr>)"
    "mset (concat nb) = mset (concat (buckets_m t))"
    "length nb = (if float_gt (load_factor t) (max_load_factor_m t)
                  then length (buckets_m t) * 2 else length (buckets_m t))"
    "\<not> float_gt (load_factor t) (max_load_factor_m t) \<Longrightarrow> nb = buckets_m t"
    "invar t \<Longrightarrow> invar (t\<lparr> buckets_m := nb \<rparr>)"
proof (cases "float_gt (load_factor t) (max_load_factor_m t)")
  case False
  then have "rehash_if_needed t = Inr (t\<lparr> buckets_m := buckets_m t \<rparr>)"
    by (simp add: rehash_if_needed_def)
  with False show ?thesis
    by (intro that [of "buckets_m t"]) simp_all
next
  case gt: True
  show ?thesis
  proof (cases "buckets_m t = []")
    case True
    then have "rehash_if_needed t = Inr (t\<lparr> buckets_m := [] \<rparr>)"
      using gt by (simp add: rehash_if_needed_def rehash_def)
    moreover have same: "t\<lparr> buckets_m := [] \<rparr> = t"
      using True by simp
    ultimately show ?thesis
      using True gt by (intro that [of "[]"]) (simp_all only: same, simp_all)
  next
    case False
    then have pos: "0 < length (buckets_m t) * 2"
      by simp
    from rehash_result [OF pos, of t] obtain nb where
      r: "rehash t (length (buckets_m t) * 2) = Inr (t\<lparr> buckets_m := nb \<rparr>)"
      and l: "length nb = length (buckets_m t) * 2"
      and m: "mset (concat nb) = mset (concat (buckets_m t))"
      by auto
    have "invar (t\<lparr> buckets_m := nb \<rparr>)" if "invar t"
      using rehash_invar [OF pos _ _ r] that by (simp add: invar_def)
    with r l m gt show ?thesis
      by (intro that [of nb]) (simp_all add: rehash_if_needed_def)
  qed
qed


lemma placed_update:
  assumes "placed h bs" "i < length bs" "\<forall>e \<in> set ys. h (fst e) mod length bs = i"
  shows "placed h (bs[i := ys])"
  using assms by (auto simp: placed_def nth_list_update)

lemma push_back_invar:
  assumes inv: "invar t" and pol: "policy_ok (hasher_m t) (equal_m t)"
    and b: "0 < length (buckets_m t)" and nk: "\<not> has_key t (fst kv)"
  defines "idx \<equiv> hasher_m t (fst kv) mod length (buckets_m t)"
  defines "t' \<equiv> t\<lparr> buckets_m := (buckets_m t)[idx := buckets_m t ! idx @ [kv]],
                    num_elements_m := num_elements_m t + 1 \<rparr>"
  shows "invar t'" "entries t' = add_mset kv (entries t)"
proof -
  have idx: "idx < length (buckets_m t)"
    using b by (simp add: idx_def)
  show e: "entries t' = add_mset kv (entries t)"
    using idx by (simp add: t'_def entries_def mset_concat_snoc)
  have "length (concat (buckets_m t')) = Suc (length (concat (buckets_m t)))"
    using arg_cong [OF e, of size] by (simp add: entries_def)
  then have "size_ok t'"
    using inv by (simp add: invar_def size_ok_def t'_def)
  moreover have "placed (hasher_m t') (buckets_m t')"
  proof -
    from inv have pl: "placed (hasher_m t) (buckets_m t)"
      by (simp add: invar_def)
    then have "\<forall>e \<in> set (buckets_m t ! idx @ [kv]).
        hasher_m t (fst e) mod length (buckets_m t) = idx"
      using idx by (auto simp: placed_def idx_def)
    from placed_update [OF pl idx this] show ?thesis
      by (simp add: t'_def)
  qed
  moreover have "unique_keys (equal_m t') (entries t')"
  proof -
    from inv have "unique_keys (equal_m t) (entries t)"
      by (simp add: invar_def)
    moreover from nk have "\<forall>e \<in># entries t. \<not> equal_m t (fst e) (fst kv)"
      by (simp add: has_key_entries)
    ultimately have "unique_keys (equal_m t) (add_mset kv (entries t))"
      by (subst unique_keys_add) (use pol in \<open>auto intro: policy_refl policy_sym\<close>)
    then show ?thesis
      by (simp add: e) (simp add: t'_def)
  qed
  ultimately show "invar t'"
    by (simp add: invar_def)
qed

text \<open>An insertion of a key that no stored key matches.\<close>

lemma insert_um_new:
  assumes inv: "invar t" and pol: "policy_ok (hasher_m t) (equal_m t)"
    and b: "0 < length (buckets_m t)" and nk: "\<not> has_key t (fst kv)"
  shows "\<exists>t' it. insert_um t kv = Inr (t', it, True) \<and> invar t' \<and>
           entries t' = add_mset kv (entries t) \<and>
           num_elements_m t' = num_elements_m t + 1 \<and>
           hasher_m t' = hasher_m t \<and> equal_m t' = equal_m t \<and>
           max_load_factor_m t' = max_load_factor_m t \<and>
           length (buckets_m t') =
             (if float_gt (load_factor t) (max_load_factor_m t)
              then length (buckets_m t) * 2 else length (buckets_m t)) \<and>
           deref t' it = Inr kv"
proof -
  obtain nb where r: "rehash_if_needed t = Inr (t\<lparr> buckets_m := nb \<rparr>)"
    and m: "mset (concat nb) = mset (concat (buckets_m t))"
    and l: "length nb = (if float_gt (load_factor t) (max_load_factor_m t)
                  then length (buckets_m t) * 2 else length (buckets_m t))"
    and i1: "invar (t\<lparr> buckets_m := nb \<rparr>)"
    using rehash_if_needed_cases [of t] inv by metis
  let ?t1 = "t\<lparr> buckets_m := nb \<rparr>"
  let ?idx = "hasher_m t (fst kv) mod length nb"
  have b1: "0 < length nb"
    using l b by (simp split: if_splits)
  have e1: "entries ?t1 = entries t"
    using m by (simp add: entries_def)
  have nk1: "\<not> has_key ?t1 (fst kv)"
    using nk by (simp add: has_key_entries e1)
  have pl1: "placed (hasher_m ?t1) (buckets_m ?t1)"
    using i1 by (simp add: invar_def)
  have pol1: "policy_ok (hasher_m ?t1) (equal_m ?t1)"
    using pol by simp
  have s: "scan (equal_m t) (fst kv) (nb ! ?idx) = None"
    using scan_bucket_None_iff [OF pol1 pl1, of "fst kv"] b1 nk1 by simp
  let ?t' = "?t1\<lparr> buckets_m := (buckets_m ?t1)[?idx := buckets_m ?t1 ! ?idx @ [kv]],
                     num_elements_m := num_elements_m ?t1 + 1 \<rparr>"
  let ?it = "\<lparr> bucket_index_m = ?idx, list_it_m = length (nb ! ?idx) \<rparr>"
  have ins: "insert_um t kv = Inr (?t', ?it, True)"
    using r b1 s by (simp add: insert_um_def bucket_def)
  have inv': "invar ?t'" and e': "entries ?t' = add_mset kv (entries ?t1)"
    using push_back_invar [OF i1 pol1 _ nk1] b1 by simp_all
  have d: "deref ?t' ?it = Inr kv"
    using b1 by (simp add: deref_def)
  show ?thesis
    using ins inv' e' e1 l d by (intro exI [of _ ?t'] exI [of _ ?it]) simp
qed

text \<open>An insertion of a key that a stored key matches.\<close>

lemma insert_um_old:
  assumes inv: "invar t" and pol: "policy_ok (hasher_m t) (equal_m t)"
    and e: "e \<in> set (concat (buckets_m t))" "equal_m t (fst e) (fst kv)"
  shows "\<exists>t' it. insert_um t kv = Inr (t', it, False) \<and> rehash_if_needed t = Inr t' \<and>
           invar t' \<and> entries t' = entries t \<and> num_elements_m t' = num_elements_m t \<and>
           hasher_m t' = hasher_m t \<and> equal_m t' = equal_m t \<and>
           max_load_factor_m t' = max_load_factor_m t \<and>
           length (buckets_m t') =
             (if float_gt (load_factor t) (max_load_factor_m t)
              then length (buckets_m t) * 2 else length (buckets_m t)) \<and>
           deref t' it = Inr e \<and> find_um t' (fst kv) = Inr it"
proof -
  obtain nb where r: "rehash_if_needed t = Inr (t\<lparr> buckets_m := nb \<rparr>)"
    and m: "mset (concat nb) = mset (concat (buckets_m t))"
    and l: "length nb = (if float_gt (load_factor t) (max_load_factor_m t)
                  then length (buckets_m t) * 2 else length (buckets_m t))"
    and i1: "invar (t\<lparr> buckets_m := nb \<rparr>)"
    using rehash_if_needed_cases [of t] inv by metis
  let ?t1 = "t\<lparr> buckets_m := nb \<rparr>"
  let ?idx = "hasher_m t (fst kv) mod length nb"
  have "buckets_m t \<noteq> []"
    using e(1) by auto
  then have b1: "0 < length nb"
    using l by (simp split: if_splits)
  have e1: "entries ?t1 = entries t"
    using m by (simp add: entries_def)
  have pol1: "policy_ok (hasher_m ?t1) (equal_m ?t1)"
    using pol by simp
  have em: "e \<in> set (concat (buckets_m ?t1))"
    using e(1) mset_eq_setD [OF m] by simp
  from lookup_hit(1) [OF pol1 i1 _ em] e(2) b1
  obtain it where f: "find_um ?t1 (fst kv) = Inr it" and d: "deref ?t1 it = Inr e"
    by auto
  from f b1 obtain pos where
    s: "scan (equal_m t) (fst kv) (nb ! ?idx) = Some pos"
    and it: "it = \<lparr> bucket_index_m = ?idx, list_it_m = pos \<rparr>"
    using d by (auto simp: find_um_def bucket_def deref_def end_um_def split: option.splits)
  have ins: "insert_um t kv = Inr (?t1, it, False)"
    using r b1 s it by (simp add: insert_um_def bucket_def)
  show ?thesis
    using ins r i1 e1 l d f by (intro exI [of _ ?t1] exI [of _ it]) simp
qed

subsection \<open>Erasure\<close>

lemma mset_remove_nth:
  "p < length xs \<Longrightarrow> mset xs = add_mset (xs ! p) (mset (take p xs @ drop (Suc p) xs))"
proof -
  assume "p < length xs"
  then have "xs = take p xs @ xs ! p # drop (Suc p) xs"
    by (rule id_take_nth_drop)
  then have "mset xs = mset (take p xs @ xs ! p # drop (Suc p) xs)"
    by simp
  then show ?thesis by simp
qed

lemma set_remove_nth: "set (take p xs @ drop (Suc p) xs) \<subseteq> set xs"
  using set_take_subset [of p xs] set_drop_subset [of "Suc p" xs] by auto

lemma mset_concat_remove:
  assumes "i < length bs" "p < length (bs ! i)"
  shows "mset (concat bs) =
     add_mset (bs ! i ! p) (mset (concat (bs[i := take p (bs ! i) @ drop (Suc p) (bs ! i)])))"
  using mset_concat_update [OF assms(1), of "take p (bs ! i) @ drop (Suc p) (bs ! i)"]
    mset_remove_nth [OF assms(2)]
  by simp

lemma erase_absent:
  assumes "policy_ok (hasher_m t) (equal_m t)" "placed (hasher_m t) (buckets_m t)"
    "0 < length (buckets_m t)" "\<not> has_key t k"
  shows "erase t k = Inr (t, 0)"
  using scan_bucket_None_iff [OF assms(1-3), of k] assms(3,4)
  by (simp add: erase_def bucket_def)

lemma erase_present:
  assumes pol: "policy_ok (hasher_m t) (equal_m t)" and inv: "invar t"
    and e: "e \<in> set (concat (buckets_m t))" "equal_m t (fst e) k"
  defines "idx \<equiv> hasher_m t k mod length (buckets_m t)"
  shows "\<exists>pos t'. scan (equal_m t) k (buckets_m t ! idx) = Some pos \<and>
           buckets_m t ! idx ! pos = e \<and>
           t' = t\<lparr> buckets_m := (buckets_m t)[idx := take pos (buckets_m t ! idx) @
                                                   drop (Suc pos) (buckets_m t ! idx)],
                   num_elements_m := num_elements_m t - 1 \<rparr> \<and>
           erase t k = Inr (t', 1) \<and> invar t' \<and> entries t = add_mset e (entries t') \<and>
           0 < num_elements_m t \<and> \<not> has_key t' k"
proof -
  let ?bs = "buckets_m t"
  from e(1) have b: "0 < length ?bs"
    by auto
  then have idx: "idx < length ?bs"
    by (simp add: idx_def)
  from inv have pl: "placed (hasher_m t) ?bs" and so: "size_ok t"
    and un: "unique_keys (equal_m t) (entries t)"
    by (simp_all add: invar_def)
  from e have "has_key t k"
    by (auto simp: has_key_def)
  with scan_bucket_None_iff [OF pol pl b, of k]
  obtain pos where s: "scan (equal_m t) k (?bs ! idx) = Some pos"
    by (auto simp: idx_def)
  from scan_bucket_Some [OF pol inv b _ e] s have v: "?bs ! idx ! pos = e"
    by (simp add: idx_def)
  from scan_Some [OF s] have p: "pos < length (?bs ! idx)"
    by simp
  let ?lst' = "take pos (?bs ! idx) @ drop (Suc pos) (?bs ! idx)"
  define t' where "t' = t\<lparr> buckets_m := ?bs[idx := ?lst'],
                            num_elements_m := num_elements_m t - 1 \<rparr>"
  from e(1) have "concat ?bs \<noteq> []"
    by (metis empty_iff empty_set)
  with so have n: "0 < num_elements_m t"
    by (simp add: size_ok_def)
  have er: "erase t k = Inr (t', 1)"
    using b s n by (simp add: erase_def bucket_def idx_def t'_def Let_def)
  have en: "entries t = add_mset e (entries t')"
    using mset_concat_remove [OF idx p] v by (simp add: entries_def t'_def)
  have "length (concat ?bs) = Suc (length (concat (buckets_m t')))"
    using arg_cong [OF en, of size] by (simp add: entries_def)
  with so have so': "size_ok t'"
    by (simp add: size_ok_def t'_def)
  have "\<forall>x \<in> set ?lst'. hasher_m t (fst x) mod length ?bs = idx"
    using pl idx set_remove_nth [of pos "?bs ! idx"] by (auto simp: placed_def)
  from placed_update [OF pl idx this] have pl': "placed (hasher_m t') (buckets_m t')"
    by (simp add: t'_def)
  from un have "unique_keys (equal_m t) (add_mset e (entries t'))"
    by (simp add: en)
  then have u2: "(\<forall>x \<in># entries t'. \<not> equal_m t (fst x) (fst e)) \<and>
      unique_keys (equal_m t) (entries t')"
    by (subst (asm) unique_keys_add) (use pol in \<open>auto intro: policy_refl policy_sym\<close>)
  then have un': "unique_keys (equal_m t') (entries t')"
    by (simp add: t'_def)
  have nk: "\<not> has_key t' k"
  proof
    assume "has_key t' k"
    then obtain x where x: "x \<in># entries t'" "equal_m t (fst x) k"
      by (auto simp: has_key_entries t'_def)
    from pol x(2) e(2) have "equal_m t (fst x) (fst e)"
      by (blast intro: policy_sym policy_trans)
    with u2 x(1) show False by blast
  qed
  from so' pl' un' have "invar t'"
    by (simp add: invar_def)
  with s v er en n nk show ?thesis
    unfolding t'_def by blast
qed

subsection \<open>The invariant is kept\<close>

lemma insert_um_zero_buckets:
  assumes "buckets_m t = []"
  shows "insert_um t kv = Inl DivisionByZero"
proof -
  obtain nb where "rehash_if_needed t = Inr (t\<lparr> buckets_m := nb \<rparr>)"
    "length nb = (if float_gt (load_factor t) (max_load_factor_m t)
                  then length (buckets_m t) * 2 else length (buckets_m t))"
    using rehash_if_needed_cases [of t] by metis
  with assms show ?thesis
    by (simp add: insert_um_def bucket_def)
qed

lemma insert_um_invar:
  assumes inv: "invar t" and pol: "policy_ok (hasher_m t) (equal_m t)"
    and ins: "insert_um t kv = Inr (t', it, b)"
  shows "invar t'" "hasher_m t' = hasher_m t" "equal_m t' = equal_m t"
    "max_load_factor_m t' = max_load_factor_m t"
proof -
  have "invar t' \<and> hasher_m t' = hasher_m t \<and> equal_m t' = equal_m t \<and>
      max_load_factor_m t' = max_load_factor_m t"
  proof (cases "has_key t (fst kv)")
    case True
    then obtain e where "e \<in> set (concat (buckets_m t))" "equal_m t (fst e) (fst kv)"
      by (auto simp: has_key_def)
    from insert_um_old [OF inv pol this] ins show ?thesis
      by auto
  next
    case False
    from ins have "buckets_m t \<noteq> []"
      using insert_um_zero_buckets [of t kv] by auto
    then have "0 < length (buckets_m t)"
      by simp
    from insert_um_new [OF inv pol this False] ins show ?thesis
      by auto
  qed
  then show "invar t'" "hasher_m t' = hasher_m t" "equal_m t' = equal_m t"
    "max_load_factor_m t' = max_load_factor_m t"
    by simp_all
qed

lemma insert_each_invar:
  assumes "invar t" "policy_ok (hasher_m t) (equal_m t)" "insert_each t es = Inr t'"
  shows "invar t' \<and> hasher_m t' = hasher_m t \<and> equal_m t' = equal_m t \<and>
           max_load_factor_m t' = max_load_factor_m t"
  using assms
proof (induction es arbitrary: t)
  case Nil
  then show ?case by simp
next
  case (Cons kv es)
  from Cons.prems(3) obtain t1 it b where
    i: "insert_um t kv = Inr (t1, it, b)" and r: "insert_each t1 es = Inr t'"
    by (auto split: sum.splits)
  from insert_um_invar [OF Cons.prems(1,2) i]
  have 1: "invar t1" "hasher_m t1 = hasher_m t" "equal_m t1 = equal_m t"
    "max_load_factor_m t1 = max_load_factor_m t"
    by simp_all
  from Cons.IH [OF 1(1) _ r] 1 Cons.prems(2) show ?case
    by simp
qed

lemma insert_buckets_concat: "insert_buckets t bs = insert_each t (concat bs)"
proof (induction bs arbitrary: t)
  case Nil
  then show ?case by simp
next
  case (Cons b bs)
  have app: "insert_each u (xs @ ys) =
      (case insert_each u xs of Inl e \<Rightarrow> Inl e | Inr u' \<Rightarrow> insert_each u' ys)"
    for u :: "('a, 'b) UnorderedMap" and xs ys
    by (induction xs arbitrary: u) (auto split: sum.splits)
  show ?case
    by (simp add: app Cons.IH split: sum.splits)
qed

lemma invar_empty_buckets:
  assumes "num_elements_m t = 0" "concat (buckets_m t) = []"
  shows "invar t"
proof -
  have "set (buckets_m t ! i) = {}" if "i < length (buckets_m t)" for i
    using assms(2) that bucket_subset_concat [of i "buckets_m t"] by simp
  then have "placed (hasher_m t) (buckets_m t)"
    by (simp add: placed_def)
  moreover have "unique_keys (equal_m t) (entries t)"
    unfolding entries_def assms(2) by (simp add: unique_keys_def)
  ultimately show ?thesis
    using assms by (simp add: invar_def size_ok_def)
qed

lemma concat_map_Nil [simp]: "concat (map (\<lambda>bkt. []) bs) = []"
  by (induction bs) auto

lemma invar_clear: "invar (clear t)"
  by (rule invar_empty_buckets) (simp_all add: clear_def)

lemma rehash_any_invar:
  assumes "invar t" "rehash t n = Inr t'"
  shows "invar t'" "hasher_m t' = hasher_m t" "equal_m t' = equal_m t"
proof -
  from assms(2) obtain nb where
    r: "rehash_buckets (hasher_m t) n (buckets_m t) (replicate n []) = Inr nb"
    and t': "t' = t\<lparr> buckets_m := nb \<rparr>"
    by (auto simp: rehash_def split: sum.splits)
  show "hasher_m t' = hasher_m t" "equal_m t' = equal_m t"
    by (simp_all add: t')
  show "invar t'"
  proof (cases "n = 0")
    case False
    with rehash_invar [OF _ _ _ assms(2)] assms(1) show ?thesis
      by (simp add: invar_def)
  next
    case True
    from rehash_buckets_mset [OF r] rehash_buckets_length [OF r]
    have m: "mset (concat nb) = mset (concat (buckets_m t))" and l: "length nb = 0"
      by (simp_all add: True)
    from l have "concat nb = []" by simp
    with m have "concat (buckets_m t) = []" by simp
    with assms(1) have "num_elements_m t = 0"
      by (simp add: invar_def size_ok_def)
    with \<open>concat nb = []\<close> show ?thesis
      by (intro invar_empty_buckets) (simp_all add: t')
  qed
qed

lemma set_max_load_factor_invar:
  assumes "invar t" "set_max_load_factor t ml = Inr t'"
  shows "invar t'" "hasher_m t' = hasher_m t" "equal_m t' = equal_m t"
proof -
  let ?t0 = "t\<lparr> max_load_factor_m := ml \<rparr>"
  have i0: "invar ?t0"
    using assms(1) by (simp add: invar_def size_ok_def entries_def)
  obtain nb where "rehash_if_needed ?t0 = Inr (?t0\<lparr> buckets_m := nb \<rparr>)"
    "invar (?t0\<lparr> buckets_m := nb \<rparr>)"
    using rehash_if_needed_cases [of ?t0] i0 by metis
  with assms(2) show "invar t'" "hasher_m t' = hasher_m t" "equal_m t' = equal_m t"
    by (auto simp: set_max_load_factor_def)
qed

lemma erase_invar:
  assumes pol: "policy_ok (hasher_m t) (equal_m t)" and inv: "invar t"
    and er: "erase t k = Inr (t', c)"
  shows "invar t'" "hasher_m t' = hasher_m t" "equal_m t' = equal_m t"
proof -
  have "invar t' \<and> hasher_m t' = hasher_m t \<and> equal_m t' = equal_m t"
  proof (cases "has_key t k")
    case True
    then obtain e where "e \<in> set (concat (buckets_m t))" "equal_m t (fst e) k"
      by (auto simp: has_key_def)
    from erase_present [OF pol inv this] er show ?thesis
      by auto
  next
    case False
    from er have "0 < length (buckets_m t)"
      by (auto simp: erase_def bucket_def split: if_splits)
    from erase_absent [OF pol _ this False] inv er show ?thesis
      by (simp add: invar_def)
  qed
  then show "invar t'" "hasher_m t' = hasher_m t" "equal_m t' = equal_m t"
    by simp_all
qed

lemma assign_value_invar:
  assumes pol: "policy_ok (hasher_m t) (equal_m t)" and inv: "invar t"
    and a: "assign_value t it v = Inr t'"
  shows "invar t'" "hasher_m t' = hasher_m t" "equal_m t' = equal_m t"
proof -
  let ?bs = "buckets_m t"
  let ?bi = "bucket_index_m it"
  let ?li = "list_it_m it"
  let ?lst = "?bs ! ?bi"
  from a obtain kv where d: "deref t it = Inr kv"
    by (auto simp: assign_value_def split: sum.splits)
  then have bi: "?bi < length ?bs" and li: "?li < length ?lst" and kv: "kv = ?lst ! ?li"
    by (auto simp: deref_def split: if_splits)
  let ?x = "(fst kv, v)"
  from a d have t': "t' = t\<lparr> buckets_m := ?bs[?bi := ?lst[?li := ?x]] \<rparr>"
    by (simp add: assign_value_def)
  show "hasher_m t' = hasher_m t" "equal_m t' = equal_m t"
    by (simp_all add: t')
  define M where "M = mset ?lst - {#kv#}"
  have m1: "mset ?lst = add_mset kv M"
    using li kv by (simp add: M_def)
  have m2: "mset (?lst[?li := ?x]) = add_mset ?x M"
    using li kv by (simp add: M_def mset_update)
  from mset_concat_update [OF bi, of "?lst[?li := ?x]"]
  have ae: "add_mset kv (entries t') = add_mset ?x (entries t)"
    by (simp add: m1 m2 entries_def t')
  define E where "E = entries t - {#kv#}"
  have "kv \<in># entries t"
  proof -
    have "kv \<in> set ?lst"
      using li kv by simp
    with bucket_subset_concat [OF bi] show ?thesis
      unfolding entries_def by auto
  qed
  then have E: "entries t = add_mset kv E"
    by (simp add: E_def)
  from ae have "add_mset kv (entries t') = add_mset kv (add_mset ?x E)"
    by (simp add: E)
  then have E': "entries t' = add_mset ?x E"
    by simp
  from inv have "unique_keys (equal_m t) (add_mset kv E)"
    by (simp add: invar_def E)
  then have "(\<forall>e \<in># E. \<not> equal_m t (fst e) (fst kv)) \<and> unique_keys (equal_m t) E"
    by (subst (asm) unique_keys_add) (use pol in \<open>auto intro: policy_refl policy_sym\<close>)
  then have "unique_keys (equal_m t) (add_mset ?x E)"
    by (subst unique_keys_add) (use pol in \<open>auto intro: policy_refl policy_sym\<close>)
  then have un: "unique_keys (equal_m t') (entries t')"
    by (simp add: E') (simp add: t')
  have "length (concat (buckets_m t')) = length (concat ?bs)"
    using arg_cong [OF E, of size] arg_cong [OF E', of size] by (simp add: entries_def)
  with inv have so: "size_ok t'"
    by (simp add: invar_def size_ok_def t')
  from inv have pl: "placed (hasher_m t) ?bs"
    by (simp add: invar_def)
  have "hasher_m t (fst e) mod length ?bs = ?bi" if "e \<in> set (?lst[?li := ?x])" for e
  proof -
    from that set_update_subset_insert [of ?lst ?li ?x] have "e = ?x \<or> e \<in> set ?lst"
      by auto
    moreover have "kv \<in> set ?lst"
      using li kv by simp
    ultimately show ?thesis
      using pl bi by (auto simp: placed_def)
  qed
  with placed_update [OF pl bi] have "placed (hasher_m t') (buckets_m t')"
    by (simp add: t')
  with so un show "invar t'"
    by (simp add: invar_def)
qed

lemma invar_ctor: "invar (UnorderedMap_ctor n h eq)"
  by (rule invar_empty_buckets) (simp_all add: UnorderedMap_ctor_def)

lemma copy_invar:
  assumes "policy_ok (hasher_m other) (equal_m other)" "UnorderedMap_copy other = Inr t"
  shows "invar t" "hasher_m t = hasher_m other" "equal_m t = equal_m other"
    "max_load_factor_m t = max_load_factor_m other"
proof -
  let ?t0 = "\<lparr> buckets_m = replicate (length (buckets_m other)) [], num_elements_m = 0,
         max_load_factor_m = max_load_factor_m other, hasher_m = hasher_m other,
         equal_m = equal_m other \<rparr>"
  have i0: "invar ?t0"
    by (rule invar_empty_buckets) simp_all
  have p0: "policy_ok (hasher_m ?t0) (equal_m ?t0)"
    using assms(1) by simp
  have "insert_each ?t0 (concat (buckets_m other)) = Inr t"
    using assms(2) by (simp add: UnorderedMap_copy_def insert_buckets_concat)
  from insert_each_invar [OF i0 p0 this] show "invar t" "hasher_m t = hasher_m other" "equal_m t = equal_m other"
    "max_load_factor_m t = max_load_factor_m other"
    by simp_all
qed

lemma assign_copy_invar:
  assumes "policy_ok (hasher_m other) (equal_m other)" "assign_copy t other = Inr t'"
  shows "invar t'" "hasher_m t' = hasher_m other" "equal_m t' = equal_m other"
proof -
  let ?t0 = "clear t\<lparr> hasher_m := hasher_m other, equal_m := equal_m other,
      max_load_factor_m := max_load_factor_m other,
      buckets_m := replicate (length (buckets_m other)) [] \<rparr>"
  have i0: "invar ?t0"
    by (rule invar_empty_buckets) (simp_all add: clear_def)
  have p0: "policy_ok (hasher_m ?t0) (equal_m ?t0)"
    using assms(1) by simp
  have "insert_each ?t0 (concat (buckets_m other)) = Inr t'"
    using assms(2) by (simp add: assign_copy_def insert_buckets_concat Let_def)
  from insert_each_invar [OF i0 p0 this] show "invar t'" "hasher_m t' = hasher_m other" "equal_m t' = equal_m other"
    by simp_all
qed

lemma invar_cong:
  assumes "buckets_m t' = buckets_m t" "num_elements_m t' = num_elements_m t"
    "hasher_m t' = hasher_m t" "equal_m t' = equal_m t"
  shows "invar t' = invar t"
  using assms by (simp add: invar_def size_ok_def entries_def)

lemma insert_um_fields:
  assumes "insert_um t kv = Inr (t', it, b)"
  shows "hasher_m t' = hasher_m t \<and> equal_m t' = equal_m t \<and>
         max_load_factor_m t' = max_load_factor_m t"
proof -
  obtain nb where "rehash_if_needed t = Inr (t\<lparr> buckets_m := nb \<rparr>)"
    using rehash_if_needed_cases [of t] by metis
  with assms show ?thesis
    by (auto simp: insert_um_def split: sum.splits option.splits)
qed

lemma insert_each_fields:
  "insert_each t es = Inr t' \<Longrightarrow>
   hasher_m t' = hasher_m t \<and> equal_m t' = equal_m t \<and>
   max_load_factor_m t' = max_load_factor_m t"
proof (induction es arbitrary: t)
  case Nil
  then show ?case by simp
next
  case (Cons kv es)
  from Cons.prems obtain t1 it b where
    i: "insert_um t kv = Inr (t1, it, b)" and r: "insert_each t1 es = Inr t'"
    by (auto split: sum.splits)
  from Cons.IH [OF r] insert_um_fields [OF i] show ?case
    by simp
qed

lemma erase_fields:
  "erase t k = Inr (t', c) \<Longrightarrow> hasher_m t' = hasher_m t \<and> equal_m t' = equal_m t \<and>
     max_load_factor_m t' = max_load_factor_m t \<and> length (buckets_m t') = length (buckets_m t)"
  by (auto simp: erase_def Let_def split: sum.splits option.splits)

lemma rehash_fields:
  "rehash t n = Inr t' \<Longrightarrow> hasher_m t' = hasher_m t \<and> equal_m t' = equal_m t \<and>
     max_load_factor_m t' = max_load_factor_m t \<and> num_elements_m t' = num_elements_m t"
  by (auto simp: rehash_def split: sum.splits)

lemma set_max_load_factor_fields:
  assumes "set_max_load_factor t ml = Inr t'"
  shows "hasher_m t' = hasher_m t \<and> equal_m t' = equal_m t \<and> max_load_factor_m t' = ml \<and>
     num_elements_m t' = num_elements_m t"
proof -
  obtain nb where "rehash_if_needed (t\<lparr> max_load_factor_m := ml \<rparr>) =
      Inr (t\<lparr> max_load_factor_m := ml, buckets_m := nb \<rparr>)"
    using rehash_if_needed_cases [of "t\<lparr> max_load_factor_m := ml \<rparr>"] by metis
  with assms show ?thesis
    by (auto simp: set_max_load_factor_def)
qed

lemma subscript_insert:
  "subscript dflt t k = Inr (t', v) \<Longrightarrow> \<exists>it b. insert_um t (k, dflt) = Inr (t', it, b)"
  by (auto simp: subscript_def split: sum.splits)

lemma copy_fields:
  assumes "UnorderedMap_copy other = Inr t"
  shows "hasher_m t = hasher_m other \<and> equal_m t = equal_m other \<and>
         max_load_factor_m t = max_load_factor_m other"
  using insert_each_fields [of _ "concat (buckets_m other)" t] assms
  by (simp add: UnorderedMap_copy_def insert_buckets_concat)

lemma assign_copy_fields:
  assumes "assign_copy t other = Inr t'"
  shows "hasher_m t' = hasher_m other \<and> equal_m t' = equal_m other \<and>
         max_load_factor_m t' = max_load_factor_m other"
  using insert_each_fields [of _ "concat (buckets_m other)" t'] assms
  by (simp add: assign_copy_def insert_buckets_concat Let_def)

text \<open>
  Every table a program can build satisfies the invariant, as long as its policy
  objects meet their requirements.
\<close>

lemma reachable_invar:
  "reachable t \<Longrightarrow> policy_ok (hasher_m t) (equal_m t) \<Longrightarrow> invar t"
proof (induction rule: reachable.induct)
  case (r_ctor n h eq)
  show ?case by (rule invar_ctor)
next
  case (r_init init n h eq t)
  from r_init(1) have ie: "insert_each (UnorderedMap_ctor n h eq) init = Inr t"
    by (simp add: UnorderedMap_init_def)
  from insert_each_fields [OF ie] r_init(2)
  have "policy_ok (hasher_m (UnorderedMap_ctor n h eq :: ('a, 'b) UnorderedMap))
      (equal_m (UnorderedMap_ctor n h eq :: ('a, 'b) UnorderedMap))"
    by simp
  from insert_each_invar [OF invar_ctor this ie] show ?case
    by simp
next
  case (r_copy other t)
  from copy_fields [OF r_copy(2)] r_copy(4)
  have "policy_ok (hasher_m other) (equal_m other)"
    by simp
  from copy_invar(1) [OF this r_copy(2)] show ?case .
next
  case (r_move other)
  then show ?case
    by (simp add: UnorderedMap_move_def invar_def size_ok_def entries_def)
next
  case (r_moved_from other)
  show ?case
    by (rule invar_empty_buckets) (simp_all add: UnorderedMap_move_def)
next
  case (r_assign_copy t other t')
  from assign_copy_fields [OF r_assign_copy(3)] r_assign_copy(6)
  have "policy_ok (hasher_m other) (equal_m other)"
    by simp
  from assign_copy_invar(1) [OF this r_assign_copy(3)] show ?case .
next
  case (r_assign_move t other)
  then show ?case
    by (simp add: assign_move_def invar_def size_ok_def entries_def)
next
  case (r_assign_moved_from t other)
  show ?case
    by (rule invar_empty_buckets) (simp_all add: assign_move_def)
next
  case (r_assign_init t init t')
  from r_assign_init(2) have ie: "insert_each (clear t) init = Inr t'"
    by (simp add: assign_init_def)
  from insert_each_fields [OF ie] r_assign_init(4)
  have "policy_ok (hasher_m (clear t)) (equal_m (clear t))"
    by simp
  from insert_each_invar [OF invar_clear this ie] show ?case
    by simp
next
  case (r_clear t)
  show ?case by (rule invar_clear)
next
  case (r_insert t kv t' it b)
  from insert_um_fields [OF r_insert(2)] r_insert(4)
  have p: "policy_ok (hasher_m t) (equal_m t)"
    by simp
  from insert_um_invar(1) [OF r_insert(3) [OF p] p r_insert(2)] show ?case .
next
  case (r_emplace t k v t' it b)
  from r_emplace(2) have i: "insert_um t (k, v) = Inr (t', it, b)"
    by (simp add: emplace_def)
  from insert_um_fields [OF i] r_emplace(4)
  have p: "policy_ok (hasher_m t) (equal_m t)"
    by simp
  from insert_um_invar(1) [OF r_emplace(3) [OF p] p i] show ?case .
next
  case (r_subscript t dflt k t' v)
  from subscript_insert [OF r_subscript(2)] obtain it b where
    i: "insert_um t (k, dflt) = Inr (t', it, b)"
    by blast
  from insert_um_fields [OF i] r_subscript(4)
  have p: "policy_ok (hasher_m t) (equal_m t)"
    by simp
  from insert_um_invar(1) [OF r_subscript(3) [OF p] p i] show ?case .
next
  case (r_assign_value t it v t')
  from r_assign_value(2) have "hasher_m t' = hasher_m t \<and> equal_m t' = equal_m t"
    by (auto simp: assign_value_def split: sum.splits)
  with r_assign_value(4) have p: "policy_ok (hasher_m t) (equal_m t)"
    by simp
  from assign_value_invar(1) [OF p r_assign_value(3) [OF p] r_assign_value(2)] show ?case .
next
  case (r_erase t k t' c)
  from erase_fields [OF r_erase(2)] r_erase(4)
  have p: "policy_ok (hasher_m t) (equal_m t)"
    by simp
  from erase_invar(1) [OF p r_erase(3) [OF p] r_erase(2)] show ?case .
next
  case (r_swap t other)
  then show ?case
    by (simp add: swap_um_def invar_def size_ok_def entries_def)
next
  case (r_swapped t other)
  then show ?case
    by (simp add: swap_um_def invar_def size_ok_def entries_def)
next
  case (r_max_load_factor t ml t')
  from set_max_load_factor_fields [OF r_max_load_factor(2)] r_max_load_factor(4)
  have p: "policy_ok (hasher_m t) (equal_m t)"
    by simp
  from set_max_load_factor_invar(1) [OF r_max_load_factor(3) [OF p] r_max_load_factor(2)]
  show ?case .
next
  case (r_rehash t n t')
  from rehash_fields [OF r_rehash(2)] r_rehash(4)
  have p: "policy_ok (hasher_m t) (equal_m t)"
    by simp
  from rehash_any_invar(1) [OF r_rehash(3) [OF p] r_rehash(2)] show ?case .
qed

subsection \<open>The example table\<close>

lemma policy_ok_String: "policy_ok StringHash StringEqual"
  by (simp add: policy_ok_def StringEqual_def)

lemma replicate_numeral: "replicate (numeral k) x = x # replicate (pred_numeral k) x"
  by (simp add: numeral_eq_Suc)

lemma list_update_numeral: "(x # xs)[numeral k := y] = x # xs[pred_numeral k := y]"
  by (simp add: numeral_eq_Suc)

lemmas list_eval = replicate_numeral list_update_numeral

lemma demo_init:
  "UnorderedMap_init [(''one'', 1), (''two'', 2), (''A'', 10)] 2 StringHash StringEqual = Inr demo"
  by (simp add: UnorderedMap_init_def UnorderedMap_ctor_def insert_um_def rehash_if_needed_def
      load_factor_def float_div_gt_one bucket_def demo_hashes StringEqual_def demo_def)
    (simp add: list_eval)

lemma reachable_demo: "reachable demo"
  using demo_init by (rule r_init)

subsection \<open>Tables without buckets\<close>

lemma zero_buckets_divide:
  assumes "buckets_m s = []" "num_elements_m s = 0"
  shows "bucket s k = Inl DivisionByZero" "find_um s k = Inl DivisionByZero"
    "insert_um s kv = Inl DivisionByZero" "erase s k = Inl DivisionByZero"
    "subscript dflt s k = Inl DivisionByZero" "at_um s k = Inl DivisionByZero"
    "contains s k = Inl DivisionByZero" "count_um s k = Inl DivisionByZero"
    "\<not> float_gt (load_factor s) (max_load_factor_m s)" "rehash_if_needed s = Inr s"
proof -
  show b: "bucket s k = Inl DivisionByZero"
    using assms by (simp add: bucket_def)
  then show f: "find_um s k = Inl DivisionByZero"
    by (simp add: find_um_def)
  show i: "insert_um s kv = Inl DivisionByZero" for kv
    using assms(1) by (rule insert_um_zero_buckets)
  show "erase s k = Inl DivisionByZero"
    using b by (simp add: erase_def)
  show "subscript dflt s k = Inl DivisionByZero"
    using i by (simp add: subscript_def)
  show "at_um s k = Inl DivisionByZero"
    using f by (simp add: at_um_def)
  show c: "contains s k = Inl DivisionByZero"
    using f by (simp add: contains_def)
  then show "count_um s k = Inl DivisionByZero"
    by (simp add: count_um_def)
  show g: "\<not> float_gt (load_factor s) (max_load_factor_m s)"
    using assms by (simp add: load_factor_def float_div_gt_one)
  then show "rehash_if_needed s = Inr s"
    by (simp add: rehash_if_needed_def)
qed

text \<open>
  C10. After the move constructor or the move assignment the source has element count 0
  (\<^verbatim>\<open>empty()\<close> is true, \<^verbatim>\<open>size()\<close> is 0) and an empty bucket array; on it
  \<^verbatim>\<open>bucket(k)\<close>, \<^verbatim>\<open>find(k)\<close>, \<^verbatim>\<open>insert\<close>, \<^verbatim>\<open>erase\<close> and \<^verbatim>\<open>operator[]\<close> all
  compute \<open>hash(k) mod 0\<close>, and the growth check changes nothing, the load factor \<open>0/0\<close>
  being a NaN that exceeds no threshold.
\<close>

theorem moved_from_divides_by_zero:
  "(let s = snd (UnorderedMap_move other) in
      num_elements_m s = 0 \<and> empty_um s \<and> size_um s = 0 \<and> bucket_count s = 0 \<and>
      bucket s k = Inl DivisionByZero \<and> find_um s k = Inl DivisionByZero \<and>
      insert_um s (k, v) = Inl DivisionByZero \<and> erase s k = Inl DivisionByZero \<and>
      subscript dflt s k = Inl DivisionByZero \<and>
      load_factor s = NaN \<and> \<not> float_gt (load_factor s) (max_load_factor s) \<and>
      rehash_if_needed s = Inr s) \<and>
   (let s = snd (assign_move t other) in
      num_elements_m s = 0 \<and> empty_um s \<and> size_um s = 0 \<and> bucket_count s = 0 \<and>
      bucket s k = Inl DivisionByZero \<and> find_um s k = Inl DivisionByZero \<and>
      insert_um s (k, v) = Inl DivisionByZero \<and> erase s k = Inl DivisionByZero \<and>
      subscript dflt s k = Inl DivisionByZero \<and>
      load_factor s = NaN \<and> \<not> float_gt (load_factor s) (max_load_factor s) \<and>
      rehash_if_needed s = Inr s)"
proof -
  have *: "num_elements_m s = 0 \<and> empty_um s \<and> size_um s = 0 \<and> bucket_count s = 0 \<and>
      bucket s k = Inl DivisionByZero \<and> find_um s k = Inl DivisionByZero \<and>
      insert_um s (k, v) = Inl DivisionByZero \<and> erase s k = Inl DivisionByZero \<and>
      subscript dflt s k = Inl DivisionByZero \<and>
      load_factor s = NaN \<and> \<not> float_gt (load_factor s) (max_load_factor s) \<and>
      rehash_if_needed s = Inr s"
    if "buckets_m s = []" "num_elements_m s = 0" for s :: "('a, 'b) UnorderedMap"
    using zero_buckets_divide [OF that] that
    by (simp add: empty_um_def size_um_def bucket_count_def max_load_factor_def
        load_factor_def float_div_gt_one)
  have "buckets_m (snd (UnorderedMap_move other)) = []"
    "num_elements_m (snd (UnorderedMap_move other)) = 0"
    "buckets_m (snd (assign_move t other)) = []"
    "num_elements_m (snd (assign_move t other)) = 0"
    by (simp_all add: UnorderedMap_move_def assign_move_def)
  then show ?thesis
    unfolding Let_def using * by blast
qed

text \<open>What an insertion returns on any table that has a bucket, invariant or not.\<close>

lemma insert_um_total:
  assumes "0 < length (buckets_m t)"
  shows "\<exists>t' it b e. insert_um t kv = Inr (t', it, b) \<and>
           length (buckets_m t') =
             (if float_gt (load_factor t) (max_load_factor_m t)
              then length (buckets_m t) * 2 else length (buckets_m t)) \<and>
           num_elements_m t' = num_elements_m t + (if b then 1 else 0) \<and>
           deref t' it = Inr e \<and> (if b then e = kv else equal_m t (fst e) (fst kv))"
proof -
  obtain nb where r: "rehash_if_needed t = Inr (t\<lparr> buckets_m := nb \<rparr>)"
    and l: "length nb = (if float_gt (load_factor t) (max_load_factor_m t)
                  then length (buckets_m t) * 2 else length (buckets_m t))"
    using rehash_if_needed_cases [of t] by metis
  let ?idx = "hasher_m t (fst kv) mod length nb"
  have b1: "0 < length nb"
    using l assms by (simp split: if_splits)
  then have idx: "?idx < length nb"
    by simp
  show ?thesis
  proof (cases "scan (equal_m t) (fst kv) (nb ! ?idx)")
    case None
    let ?t' = "t\<lparr> buckets_m := nb[?idx := nb ! ?idx @ [kv]],
                   num_elements_m := num_elements_m t + 1 \<rparr>"
    let ?it = "\<lparr> bucket_index_m = ?idx, list_it_m = length (nb ! ?idx) \<rparr>"
    have "insert_um t kv = Inr (?t', ?it, True)"
      using r b1 None by (simp add: insert_um_def bucket_def)
    moreover have "deref ?t' ?it = Inr kv"
      using idx by (simp add: deref_def)
    ultimately show ?thesis
      using l by (intro exI [of _ ?t'] exI [of _ ?it] exI [of _ True] exI [of _ kv]) simp
  next
    case (Some pos)
    let ?t' = "t\<lparr> buckets_m := nb \<rparr>"
    let ?it = "\<lparr> bucket_index_m = ?idx, list_it_m = pos \<rparr>"
    have "insert_um t kv = Inr (?t', ?it, False)"
      using r b1 Some by (simp add: insert_um_def bucket_def)
    moreover from scan_Some [OF Some]
    have "pos < length (nb ! ?idx)" "equal_m t (fst (nb ! ?idx ! pos)) (fst kv)"
      by simp_all
    then have "deref ?t' ?it = Inr (nb ! ?idx ! pos)"
      "equal_m t (fst (nb ! ?idx ! pos)) (fst kv)"
      using idx by (simp_all add: deref_def)
    ultimately show ?thesis
      using l
      by (intro exI [of _ ?t'] exI [of _ ?it] exI [of _ False] exI [of _ "nb ! ?idx ! pos"])
        simp
  qed
qed

lemma erase_total:
  assumes "0 < length (buckets_m t)"
  shows "\<exists>t' c. erase t k = Inr (t', c) \<and> length (buckets_m t') = length (buckets_m t)"
  using assms by (simp add: erase_def bucket_def Let_def split: option.splits)

lemma find_um_total:
  assumes "0 < length (buckets_m t)"
  shows "\<exists>it. find_um t k = Inr it"
  using assms by (simp add: find_um_def bucket_def split: option.splits)

text \<open>
  C9 claims that the zero-bucket case is guarded. It is not: \<^verbatim>\<open>bucket(key)\<close> reduces
  modulo the bucket count whatever it is, and \<^verbatim>\<open>rehash(0)\<close> is accepted and reduces
  modulo 0 at the first entry it moves. Here on a table constructed with no buckets, and
  on the example table.
\<close>

theorem zero_buckets_unguarded:
  "bucket (UnorderedMap_ctor 0 StringHash StringEqual :: (string, nat) UnorderedMap) ''one''
     = Inl DivisionByZero \<and>
   rehash demo 0 = Inl DivisionByZero"
  by (simp add: bucket_def UnorderedMap_ctor_def rehash_def demo_def)

text \<open>
  C9, as the code has it. No operation validates the bucket count, but from a table with
  at least one bucket \<^verbatim>\<open>bucket\<close>, \<^verbatim>\<open>find\<close>, \<^verbatim>\<open>insert\<close>, \<^verbatim>\<open>erase\<close>,
  \<^verbatim>\<open>operator[]\<close>, the growth check, the threshold setter and \<^verbatim>\<open>rehash(n)\<close> with
  \<open>n \<ge> 1\<close> all return without a reduction modulo 0 and leave at least one bucket: the
  growth check keeps the count or doubles it, whatever the threshold.
\<close>

theorem bucket_count_stays_positive:
  assumes "0 < bucket_count t"
  shows "bucket t k = Inr (hasher_m t k mod bucket_count t) \<and>
         (\<exists>it. find_um t k = Inr it) \<and>
         (\<exists>t' it b. insert_um t kv = Inr (t', it, b) \<and> bucket_count t \<le> bucket_count t') \<and>
         (\<exists>t' c. erase t k = Inr (t', c) \<and> bucket_count t' = bucket_count t) \<and>
         (\<exists>t' v. subscript dflt t k = Inr (t', v) \<and> bucket_count t \<le> bucket_count t') \<and>
         (\<exists>t'. rehash_if_needed t = Inr t' \<and>
               (bucket_count t' = bucket_count t \<or> bucket_count t' = 2 * bucket_count t)) \<and>
         (\<exists>t'. set_max_load_factor t ml = Inr t' \<and>
               (bucket_count t' = bucket_count t \<or> bucket_count t' = 2 * bucket_count t)) \<and>
         (1 \<le> n \<longrightarrow> (\<exists>t'. rehash t n = Inr t' \<and> bucket_count t' = n))"
proof -
  from assms have b: "0 < length (buckets_m t)"
    by (simp add: bucket_count_def)
  have 1: "bucket t k = Inr (hasher_m t k mod bucket_count t)"
    using b by (simp add: bucket_def bucket_count_def)
  note 2 = find_um_total [OF b, of k]
  have 3: "\<exists>t' it b. insert_um t kv = Inr (t', it, b) \<and> bucket_count t \<le> bucket_count t'"
    using insert_um_total [OF b, of kv] by (auto simp: bucket_count_def split: if_splits)
  have 4: "\<exists>t' c. erase t k = Inr (t', c) \<and> bucket_count t' = bucket_count t"
    using erase_total [OF b, of k] by (simp add: bucket_count_def)
  have 5: "\<exists>t' v. subscript dflt t k = Inr (t', v) \<and> bucket_count t \<le> bucket_count t'"
  proof -
    from insert_um_total [OF b, of "(k, dflt)"] obtain t' it c e where
      "insert_um t (k, dflt) = Inr (t', it, c)" "deref t' it = Inr e"
      "length (buckets_m t') =
             (if float_gt (load_factor t) (max_load_factor_m t)
              then length (buckets_m t) * 2 else length (buckets_m t))"
      by blast
    then show ?thesis
      by (auto simp: subscript_def bucket_count_def split: if_splits)
  qed
  have 6: "\<exists>t'. rehash_if_needed t = Inr t' \<and>
               (bucket_count t' = bucket_count t \<or> bucket_count t' = 2 * bucket_count t)"
  proof -
    obtain nb where "rehash_if_needed t = Inr (t\<lparr> buckets_m := nb \<rparr>)"
      "length nb = (if float_gt (load_factor t) (max_load_factor_m t)
                  then length (buckets_m t) * 2 else length (buckets_m t))"
      using rehash_if_needed_cases [of t] by metis
    then show ?thesis
      by (auto simp: bucket_count_def split: if_splits)
  qed
  have 7: "\<exists>t'. set_max_load_factor t ml = Inr t' \<and>
               (bucket_count t' = bucket_count t \<or> bucket_count t' = 2 * bucket_count t)"
  proof -
    let ?t0 = "t\<lparr> max_load_factor_m := ml \<rparr>"
    obtain nb where "rehash_if_needed ?t0 = Inr (?t0\<lparr> buckets_m := nb \<rparr>)"
      "length nb = (if float_gt (load_factor ?t0) (max_load_factor_m ?t0)
                  then length (buckets_m ?t0) * 2 else length (buckets_m ?t0))"
      using rehash_if_needed_cases [of ?t0] by metis
    then show ?thesis
      by (auto simp: bucket_count_def set_max_load_factor_def split: if_splits)
  qed
  have 8: "\<exists>t'. rehash t n = Inr t' \<and> bucket_count t' = n" if "1 \<le> n"
  proof -
    from that have "0 < n" by simp
    from rehash_result [OF this, of t] show ?thesis
      by (auto simp: bucket_count_def)
  qed
  from 1 2 3 4 5 6 7 8 show ?thesis
    by blast
qed


theorem bucket_count_stays_positive_witness:
  "0 < bucket_count demo \<and> bucket demo ''one'' = Inr 0 \<and>
   (\<exists>it. find_um demo ''one'' = Inr it) \<and>
   (\<exists>t' it b. insert_um demo (''B'', 7) = Inr (t', it, b) \<and> 2 \<le> bucket_count t') \<and>
   (\<exists>t' c. erase demo ''one'' = Inr (t', c) \<and> bucket_count t' = 2) \<and>
   (\<exists>t'. rehash demo 3 = Inr t' \<and> bucket_count t' = 3)"
proof -
  have b: "0 < bucket_count demo" and c: "bucket_count demo = 2"
    by (simp_all add: bucket_count_def demo_def)
  have h: "hasher_m demo ''one'' mod 2 = 0"
    by (simp add: demo_def demo_hashes)
  from bucket_count_stays_positive [OF b, of "''one''" "(''B'', 7)" 0 "Num 1" 3]
  show ?thesis
    unfolding c h using b by simp
qed

subsection \<open>The lookup functions\<close>

text \<open>
  C7 speaks of every table. On a table without buckets, here the example table after it
  has been moved from, no entry is present and yet \<^verbatim>\<open>at\<close> does not throw
  \<^verbatim>\<open>std::out_of_range\<close>: it divides by zero, as \<^verbatim>\<open>find\<close>, \<^verbatim>\<open>contains\<close> and
  \<^verbatim>\<open>count\<close> do.
\<close>

theorem at_without_buckets:
  "reachable (snd (UnorderedMap_move demo)) \<and>
   \<not> has_key (snd (UnorderedMap_move demo)) ''one'' \<and>
   at_um (snd (UnorderedMap_move demo)) ''one'' = Inl DivisionByZero \<and>
   find_um (snd (UnorderedMap_move demo)) ''one'' = Inl DivisionByZero \<and>
   contains (snd (UnorderedMap_move demo)) ''one'' = Inl DivisionByZero \<and>
   count_um (snd (UnorderedMap_move demo)) ''one'' = Inl DivisionByZero"
proof -
  have "reachable (snd (UnorderedMap_move demo))"
    using reachable_demo by (rule r_moved_from)
  moreover have "buckets_m (snd (UnorderedMap_move demo)) = []"
    "num_elements_m (snd (UnorderedMap_move demo)) = 0"
    by (simp_all add: UnorderedMap_move_def)
  ultimately show ?thesis
    using zero_buckets_divide [of "snd (UnorderedMap_move demo)"]
    by (simp add: has_key_def)
qed

text \<open>
  C7, for the tables that have a bucket. On every table a program can build with policies
  that meet their requirements and \<^verbatim>\<open>bucket_count() > 0\<close>: \<^verbatim>\<open>at(k)\<close> fails with
  KeyNotFound exactly when no stored key matches \<open>k\<close>, and otherwise returns the value of
  the matching entry; \<^verbatim>\<open>find\<close>, \<^verbatim>\<open>contains\<close> and \<^verbatim>\<open>count\<close> return the end
  iterator, false and 0 for an absent key, and an iterator at the entry, true and 1 for a
  present one. None of the four returns a table: the model has no channel through which
  they could change it.
\<close>

theorem lookup_with_buckets:
  assumes "reachable t" "policy_ok (hasher_m t) (equal_m t)" "0 < bucket_count t"
  shows "(at_um t k = Inl KeyNotFound \<longleftrightarrow> \<not> has_key t k) \<and>
         (has_key t k \<longrightarrow>
            (\<exists>it e. find_um t k = Inr it \<and> \<not> iterator_eq t it (end_um t) \<and>
                    deref t it = Inr e \<and> equal_m t (fst e) k \<and> at_um t k = Inr (snd e)) \<and>
            contains t k = Inr True \<and> count_um t k = Inr 1) \<and>
         (\<not> has_key t k \<longrightarrow>
            find_um t k = Inr (end_um t) \<and> contains t k = Inr False \<and>
            count_um t k = Inr 0)"
proof -
  from assms(1,2) have inv: "invar t"
    by (rule reachable_invar)
  then have pl: "placed (hasher_m t) (buckets_m t)"
    by (simp add: invar_def)
  from assms(3) have b: "0 < length (buckets_m t)"
    by (simp add: bucket_count_def)
  show ?thesis
  proof (cases "has_key t k")
    case True
    then obtain e where e: "e \<in> set (concat (buckets_m t))" "equal_m t (fst e) k"
      by (auto simp: has_key_def)
    from lookup_hit(1) [OF assms(2) inv b e] obtain it where
      "find_um t k = Inr it" "deref t it = Inr e" "\<not> iterator_eq t it (end_um t)"
      by blast
    with e(2) lookup_hit(4) [OF assms(2) inv b e]
    have "\<exists>it e. find_um t k = Inr it \<and> \<not> iterator_eq t it (end_um t) \<and>
        deref t it = Inr e \<and> equal_m t (fst e) k \<and> at_um t k = Inr (snd e)"
      by blast
    moreover have "at_um t k \<noteq> Inl KeyNotFound"
      using lookup_hit(4) [OF assms(2) inv b e] by simp
    ultimately show ?thesis
      using True lookup_hit(2,3) [OF assms(2) inv b e] by simp
  next
    case False
    from lookup_miss [OF assms(2) pl b False] False show ?thesis
      by simp
  qed
qed

lemma demo_props:
  "policy_ok (hasher_m demo) (equal_m demo)" "0 < bucket_count demo"
  "has_key demo ''one''" "\<not> has_key demo ''B''"
  by (simp_all add: demo_def policy_ok_String bucket_count_def has_key_def StringEqual_def)

theorem lookup_with_buckets_witness:
  "reachable demo \<and> policy_ok (hasher_m demo) (equal_m demo) \<and> 0 < bucket_count demo \<and>
   at_um demo ''B'' = Inl KeyNotFound \<and> find_um demo ''B'' = Inr (end_um demo) \<and>
   contains demo ''B'' = Inr False \<and> count_um demo ''B'' = Inr 0 \<and>
   contains demo ''one'' = Inr True \<and> count_um demo ''one'' = Inr 1"
  using lookup_with_buckets [OF reachable_demo demo_props(1,2), of "''B''"]
    lookup_with_buckets [OF reachable_demo demo_props(1,2), of "''one''"]
    reachable_demo demo_props
  by simp

subsection \<open>Erase\<close>

text \<open>
  C6 speaks of every table state. On a table constructed with no buckets the key is absent
  and \<^verbatim>\<open>erase\<close> does not return 0: it divides by zero.
\<close>

theorem erase_without_buckets:
  "reachable (UnorderedMap_ctor 0 StringHash StringEqual :: (string, nat) UnorderedMap) \<and>
   \<not> has_key (UnorderedMap_ctor 0 StringHash StringEqual :: (string, nat) UnorderedMap) ''one'' \<and>
   erase (UnorderedMap_ctor 0 StringHash StringEqual :: (string, nat) UnorderedMap) ''one''
     = Inl DivisionByZero"
proof -
  have "reachable (UnorderedMap_ctor 0 StringHash StringEqual :: (string, nat) UnorderedMap)"
    by (rule r_ctor)
  then show ?thesis
    by (simp add: has_key_def erase_def bucket_def) (simp add: UnorderedMap_ctor_def)
qed

text \<open>
  C6, for the tables that have a bucket. On every table a program can build with policies
  that meet their requirements and \<^verbatim>\<open>bucket_count() > 0\<close>: if a stored key matches
  \<open>k\<close>, \<^verbatim>\<open>erase(k)\<close> returns 1, the size drops by exactly one, the bucket of \<open>k\<close> loses
  the first matching entry and keeps the others in their order, every other bucket is as
  it was, and \<^verbatim>\<open>find(k)\<close> then returns the end iterator; if no stored key matches,
  \<^verbatim>\<open>erase(k)\<close> returns 0 and the table is unchanged. The bucket count is the same in
  both cases.
\<close>

theorem erase_correct:
  assumes "reachable t" "policy_ok (hasher_m t) (equal_m t)" "0 < bucket_count t"
  shows "(has_key t k \<longrightarrow>
           (let idx = hasher_m t k mod bucket_count t; lst = buckets_m t ! idx in
            \<exists>t' pos. erase t k = Inr (t', 1) \<and>
              0 < size_um t \<and> size_um t' = size_um t - 1 \<and>
              bucket_count t' = bucket_count t \<and>
              scan (equal_m t) k lst = Some pos \<and>
              buckets_m t' = (buckets_m t)[idx := take pos lst @ drop (Suc pos) lst] \<and>
              entries t = add_mset (lst ! pos) (entries t') \<and>
              find_um t' k = Inr (end_um t') \<and> contains t' k = Inr False)) \<and>
         (\<not> has_key t k \<longrightarrow> erase t k = Inr (t, 0))"
proof -
  from assms(1,2) have inv: "invar t"
    by (rule reachable_invar)
  then have pl: "placed (hasher_m t) (buckets_m t)"
    by (simp add: invar_def)
  from assms(3) have b: "0 < length (buckets_m t)"
    by (simp add: bucket_count_def)
  show ?thesis
  proof (cases "has_key t k")
    case False
    with erase_absent [OF assms(2) pl b] show ?thesis
      by simp
  next
    case True
    then obtain e where e: "e \<in> set (concat (buckets_m t))" "equal_m t (fst e) k"
      by (auto simp: has_key_def)
    let ?idx = "hasher_m t k mod length (buckets_m t)"
    let ?lst = "buckets_m t ! ?idx"
    from erase_present [OF assms(2) inv e] obtain pos t' where
      s: "scan (equal_m t) k ?lst = Some pos" and v: "?lst ! pos = e"
      and t': "t' = t\<lparr> buckets_m := (buckets_m t)[?idx := take pos ?lst @ drop (Suc pos) ?lst],
                   num_elements_m := num_elements_m t - 1 \<rparr>"
      and er: "erase t k = Inr (t', 1)" and inv': "invar t'"
      and en: "entries t = add_mset e (entries t')"
      and n: "0 < num_elements_m t" and nk: "\<not> has_key t' k"
      by blast
    have pol': "policy_ok (hasher_m t') (equal_m t')" and b': "0 < length (buckets_m t')"
      using assms(2) b by (simp_all add: t')
    from inv' have pl': "placed (hasher_m t') (buckets_m t')"
      by (simp add: invar_def)
    note miss = lookup_miss [OF pol' pl' b' nk]
    have "erase t k = Inr (t', 1) \<and>
              0 < size_um t \<and> size_um t' = size_um t - 1 \<and>
              bucket_count t' = bucket_count t \<and>
              scan (equal_m t) k ?lst = Some pos \<and>
              buckets_m t' = (buckets_m t)[?idx := take pos ?lst @ drop (Suc pos) ?lst] \<and>
              entries t = add_mset (?lst ! pos) (entries t') \<and>
              find_um t' k = Inr (end_um t') \<and> contains t' k = Inr False"
      using er n s en v miss(1,2) by (simp add: size_um_def bucket_count_def) (simp add: t')
    then show ?thesis
      using True unfolding Let_def bucket_count_def by blast
  qed
qed

theorem erase_correct_witness:
  "reachable demo \<and> policy_ok (hasher_m demo) (equal_m demo) \<and> 0 < bucket_count demo \<and>
   has_key demo ''one'' \<and>
   (\<exists>t'. erase demo ''one'' = Inr (t', 1) \<and> size_um t' = 2 \<and> bucket_count t' = 2 \<and>
      buckets_m t' = [[(''two'', 2)], [(''A'', 10)]] \<and> find_um t' ''one'' = Inr (end_um t')) \<and>
   \<not> has_key demo ''B'' \<and> erase demo ''B'' = Inr (demo, 0)"
proof -
  have "bucket_count demo = 2" "hasher_m demo ''one'' = 110182"
    by (simp_all add: demo_def demo_hashes bucket_count_def)
  then have idx: "hasher_m demo ''one'' mod bucket_count demo = 0"
    by simp
  have sc: "scan (equal_m demo) ''one'' (buckets_m demo ! 0) = Some 0"
    by (simp add: demo_def StringEqual_def)
  from erase_correct [OF reachable_demo demo_props(1,2), of "''one''"] demo_props(3)
  obtain t' pos where "erase demo ''one'' = Inr (t', 1)" "size_um t' = size_um demo - 1"
    "bucket_count t' = bucket_count demo"
    "scan (equal_m demo) ''one'' (buckets_m demo ! 0) = Some pos"
    "buckets_m t' = (buckets_m demo)[0 := take pos (buckets_m demo ! 0) @
        drop (Suc pos) (buckets_m demo ! 0)]"
    "find_um t' ''one'' = Inr (end_um t')"
    unfolding Let_def idx by blast
  then have "erase demo ''one'' = Inr (t', 1) \<and> size_um t' = 2 \<and> bucket_count t' = 2 \<and>
      buckets_m t' = [[(''two'', 2)], [(''A'', 10)]] \<and> find_um t' ''one'' = Inr (end_um t')"
    using sc by (simp add: demo_def size_um_def bucket_count_def)
  moreover from erase_correct [OF reachable_demo demo_props(1,2), of "''B''"] demo_props(4)
  have "erase demo ''B'' = Inr (demo, 0)"
    by simp
  ultimately show ?thesis
    using reachable_demo demo_props by blast
qed

subsection \<open>Insertion of a key that is present\<close>

lemma has_keyI:
  assumes "i < length (buckets_m t)" "e \<in> set (buckets_m t ! i)" "equal_m t (fst e) k"
  shows "has_key t k"
  using assms bucket_subset_concat [OF assms(1)] unfolding has_key_def by blast


lemma hash_x: "StringHash ''x'' = 120"
  by (simp add: StringHash_def char_to_size_t_def)

text \<open>
  C1 speaks of every key that a stored key matches under the equality predicate, whatever
  the two policies are. \<^verbatim>\<open>insert\<close> scans one bucket only, the bucket of the hash of the
  new key, so the claim needs policies that agree. With the identity as the hash and
  \<open>\<le>\<close> as the predicate on four buckets, key 5 is stored in bucket 1; the stored key
  matches 6 (\<^verbatim>\<open>equal_(5, 6)\<close> holds), but \<^verbatim>\<open>insert({6,2})\<close> scans bucket 2, finds it
  empty, and returns the flag true with a second entry.
\<close>

theorem insert_matching_key_in_other_bucket:
  "insert_um (UnorderedMap_ctor 4 id (\<le>)) (5 :: nat, 1 :: nat)
     = Inr (\<lparr> buckets_m = [[], [(5, 1)], [], []], num_elements_m = 1,
               max_load_factor_m = Num 1, hasher_m = id, equal_m = (\<le>) \<rparr>,
            \<lparr> bucket_index_m = 1, list_it_m = 0 \<rparr>, True) \<and>
   reachable (\<lparr> buckets_m = [[], [(5 :: nat, 1 :: nat)], [], []], num_elements_m = 1,
                 max_load_factor_m = Num 1, hasher_m = id, equal_m = (\<le>) \<rparr>) \<and>
   has_key (\<lparr> buckets_m = [[], [(5 :: nat, 1 :: nat)], [], []], num_elements_m = 1,
               max_load_factor_m = Num 1, hasher_m = id, equal_m = (\<le>) \<rparr>) 6 \<and>
   insert_um (\<lparr> buckets_m = [[], [(5 :: nat, 1 :: nat)], [], []], num_elements_m = 1,
                 max_load_factor_m = Num 1, hasher_m = id, equal_m = (\<le>) \<rparr>) (6, 2)
     = Inr (\<lparr> buckets_m = [[], [(5, 1)], [(6, 2)], []], num_elements_m = 2,
               max_load_factor_m = Num 1, hasher_m = id, equal_m = (\<le>) \<rparr>,
            \<lparr> bucket_index_m = 2, list_it_m = 0 \<rparr>, True) \<and>
   size_um (\<lparr> buckets_m = [[], [(5 :: nat, 1 :: nat)], [(6, 2)], []], num_elements_m = 2,
               max_load_factor_m = Num 1, hasher_m = id, equal_m = (\<le>) \<rparr>) = 2"
proof -
  let ?t1 = "\<lparr> buckets_m = [[], [(5 :: nat, 1 :: nat)], [], []], num_elements_m = 1,
               max_load_factor_m = Num 1, hasher_m = id, equal_m = (\<le>) \<rparr>"
  have i1: "insert_um (UnorderedMap_ctor 4 id (\<le>)) (5 :: nat, 1 :: nat)
      = Inr (?t1, \<lparr> bucket_index_m = 1, list_it_m = 0 \<rparr>, True)"
    by (simp add: UnorderedMap_ctor_def insert_um_def rehash_if_needed_def load_factor_def
        float_div_gt_one bucket_def)
      (simp add: list_eval)
  have r: "reachable ?t1"
    using r_ctor i1 by (rule r_insert)
  have k: "has_key ?t1 6"
    by (simp add: has_key_def)
  have i2: "insert_um ?t1 (6, 2)
      = Inr (\<lparr> buckets_m = [[], [(5, 1)], [(6, 2)], []], num_elements_m = 2,
               max_load_factor_m = Num 1, hasher_m = id, equal_m = (\<le>) \<rparr>,
            \<lparr> bucket_index_m = 2, list_it_m = 0 \<rparr>, True)"
    by (simp add: insert_um_def rehash_if_needed_def load_factor_def float_div_gt_one
        bucket_def)
  have s: "size_um (\<lparr> buckets_m = [[], [(5 :: nat, 1 :: nat)], [(6, 2)], []],
      num_elements_m = 2, max_load_factor_m = Num 1, hasher_m = id, equal_m = (\<le>) \<rparr>) = 2"
    by (simp add: size_um_def)
  from i1 r k i2 s show ?thesis
    by (intro conjI)
qed

text \<open>
  C1. On every table a program can build, with policies that meet their requirements,
  and for every key \<open>k\<close> that a stored key matches: \<^verbatim>\<open>insert((k,v))\<close> returns the
  flag false and an iterator at the entry that was there (the one \<^verbatim>\<open>find(k)\<close> returns
  afterwards); the size and the stored pairs are unchanged, so \<^verbatim>\<open>at(k)\<close> yields after
  the call the value it yielded before, and \<open>v\<close> is dropped. The example after the
  theorem is \<^verbatim>\<open>insert({"x",1})\<close> followed by \<^verbatim>\<open>insert({"x",2})\<close>.
\<close>

theorem insert_existing_key:
  assumes "reachable t" "policy_ok (hasher_m t) (equal_m t)" "has_key t k"
  shows "\<exists>t' it e. insert_um t (k, v) = Inr (t', it, False) \<and>
           deref t' it = Inr e \<and> e \<in> set (concat (buckets_m t)) \<and> equal_m t (fst e) k \<and>
           find_um t' k = Inr it \<and>
           size_um t' = size_um t \<and> entries t' = entries t \<and>
           at_um t k = Inr (snd e) \<and> at_um t' k = Inr (snd e)"
proof -
  from assms(1,2) have inv: "invar t"
    by (rule reachable_invar)
  from assms(3) obtain e where e: "e \<in> set (concat (buckets_m t))" "equal_m t (fst e) k"
    by (auto simp: has_key_def)
  then have b: "0 < length (buckets_m t)"
    by auto
  from insert_um_old [OF inv assms(2), of e "(k, v)"] e obtain t' it where
    i: "insert_um t (k, v) = Inr (t', it, False)" and inv': "invar t'"
    and en: "entries t' = entries t" and n: "num_elements_m t' = num_elements_m t"
    and f: "hasher_m t' = hasher_m t" "equal_m t' = equal_m t"
    and l: "length (buckets_m t') =
             (if float_gt (load_factor t) (max_load_factor_m t)
              then length (buckets_m t) * 2 else length (buckets_m t))"
    and d: "deref t' it = Inr e" and fi: "find_um t' k = Inr it"
    by auto
  from l b have b': "0 < length (buckets_m t')"
    by (simp split: if_splits)
  have e': "e \<in> set (concat (buckets_m t'))"
    using e(1) arg_cong [OF en, of set_mset] by (simp add: entries_def)
  have pol': "policy_ok (hasher_m t') (equal_m t')"
    using assms(2) f by simp
  have "at_um t k = Inr (snd e)"
    using lookup_hit(4) [OF assms(2) inv b e] .
  moreover have "at_um t' k = Inr (snd e)"
    using lookup_hit(4) [OF pol' inv' b' e'] e(2) f by simp
  moreover have "size_um t' = size_um t"
    using n by (simp add: size_um_def)
  ultimately show ?thesis
    using i d e fi en by (intro exI [of _ t'] exI [of _ it] exI [of _ e]) simp
qed


theorem insert_existing_key_witness:
  "\<exists>t1 it1. insert_um (UnorderedMap_ctor 16 StringHash StringEqual) (''x'', 1::nat)
       = Inr (t1, it1, True) \<and>
     reachable t1 \<and> policy_ok (hasher_m t1) (equal_m t1) \<and> has_key t1 ''x'' \<and>
     (\<exists>t2 it2. insert_um t1 (''x'', 2) = Inr (t2, it2, False) \<and> size_um t2 = 1 \<and>
        find_um t2 ''x'' = Inr it2 \<and> at_um t2 ''x'' = Inr 1)"
proof -
  define t1 :: "(string, nat) UnorderedMap" where
    "t1 = \<lparr> buckets_m = (replicate 16 [])[8 := [(''x'', 1)]], num_elements_m = 1,
            max_load_factor_m = Num 1, hasher_m = StringHash, equal_m = StringEqual \<rparr>"
  have i1: "insert_um (UnorderedMap_ctor 16 StringHash StringEqual) (''x'', 1::nat)
      = Inr (t1, \<lparr> bucket_index_m = 8, list_it_m = 0 \<rparr>, True)"
    by (simp add: UnorderedMap_ctor_def insert_um_def rehash_if_needed_def load_factor_def
        float_div_gt_one bucket_def hash_x t1_def)
  have r: "reachable t1"
    using r_ctor i1 by (rule r_insert)
  have p: "policy_ok (hasher_m t1) (equal_m t1)"
    by (simp add: t1_def policy_ok_String)
  have k: "has_key t1 ''x''"
    by (rule has_keyI [of 8 _ "(''x'', 1)"]) (simp_all add: t1_def StringEqual_def)
  have a: "at_um t1 ''x'' = Inr 1"
    by (simp add: at_um_def find_um_def bucket_def hash_x t1_def StringEqual_def
        iterator_eq_def end_um_def deref_def)
  have s1: "size_um t1 = 1"
    by (simp add: size_um_def t1_def)
  from insert_existing_key [OF r p k, of 2] obtain t2 it2 and e :: "string \<times> nat" where
    i2: "insert_um t1 (''x'', 2) = Inr (t2, it2, False)" and s2: "size_um t2 = size_um t1"
    and f2: "find_um t2 ''x'' = Inr it2"
    and a1: "at_um t1 ''x'' = Inr (snd e)" and a2: "at_um t2 ''x'' = Inr (snd e)"
    by metis
  from a a1 have "snd e = 1"
    by simp
  with a2 have "at_um t2 ''x'' = Inr 1"
    by simp
  with i2 s2 s1 f2 have "insert_um t1 (''x'', 2) = Inr (t2, it2, False) \<and> size_um t2 = 1 \<and>
        find_um t2 ''x'' = Inr it2 \<and> at_um t2 ''x'' = Inr 1"
    by simp
  then have "\<exists>t2 it2. insert_um t1 (''x'', 2) = Inr (t2, it2, False) \<and> size_um t2 = 1 \<and>
        find_um t2 ''x'' = Inr it2 \<and> at_um t2 ''x'' = Inr 1"
    by blast
  with i1 r p k show ?thesis
    by blast
qed

subsection \<open>The growth check\<close>





text \<open>
  Seven entries in ten buckets with the threshold \<^verbatim>\<open>0.7f\<close>: the check compares
  \<^verbatim>\<open>7.0f / 10\<close> with \<^verbatim>\<open>0.7f\<close>, the same number, and leaves the table alone.
\<close>

lemma rehash_if_needed_seven_tenths:
  assumes "num_elements_m t = 7" "length (buckets_m t) = 10"
    "max_load_factor_m t = float_lit (7 / 10)"
  shows "rehash_if_needed t = Inr t"
  using assms float_div_7_10(2) by (simp add: rehash_if_needed_def load_factor_def)




subsection \<open>Traversal and bucket sizes\<close>

lemma advance_loop_spec:
  "bi < length (buckets_m t) \<Longrightarrow> li \<le> length (buckets_m t ! bi) \<Longrightarrow>
   valid_iterator t (advance_loop t bi li) \<and>
   entries_from t (advance_loop t bi li) =
     drop li (buckets_m t ! bi) @ concat (drop (Suc bi) (buckets_m t))"
proof (induction t bi li rule: advance_loop.induct)
  case (1 t bi li)
  let ?bs = "buckets_m t"
  show ?case
  proof (cases "li = length (?bs ! bi)")
    case False
    then have "advance_loop t bi li = \<lparr> bucket_index_m = bi, list_it_m = li \<rparr>"
      by (subst advance_loop.simps) simp
    with "1.prems" False show ?thesis
      by (simp add: valid_iterator_def entries_from_def)
  next
    case eq: True
    show ?thesis
    proof (cases "Suc bi < length ?bs")
      case True
      have a: "advance_loop t bi li = advance_loop t (Suc bi) 0"
        using "1.prems" eq True by (subst advance_loop.simps) simp
      from True have dr: "drop (Suc bi) ?bs = ?bs ! Suc bi # drop (Suc (Suc bi)) ?bs"
        by (simp add: Cons_nth_drop_Suc)
      from "1.IH" "1.prems" eq True
      have "valid_iterator t (advance_loop t (Suc bi) 0) \<and>
          entries_from t (advance_loop t (Suc bi) 0) =
            drop 0 (?bs ! Suc bi) @ concat (drop (Suc (Suc bi)) ?bs)"
        by simp
      then show ?thesis
        unfolding a using eq by (simp add: dr)
    next
      case False
      have "advance_loop t bi li = advance_loop t (Suc bi) li"
        using "1.prems" eq False by (subst advance_loop.simps) simp
      also have "\<dots> = \<lparr> bucket_index_m = Suc bi, list_it_m = li \<rparr>"
        using False by (subst advance_loop.simps) simp
      finally have a: "advance_loop t bi li = \<lparr> bucket_index_m = Suc bi, list_it_m = li \<rparr>" .
      from False "1.prems" have "Suc bi = length ?bs"
        by simp
      then show ?thesis
        unfolding a using eq by (simp add: valid_iterator_def entries_from_def)
    qed
  qed
qed

lemma begin_loop_spec:
  "i \<le> length (buckets_m t) \<Longrightarrow>
   valid_iterator t (begin_loop t i) \<and>
   entries_from t (begin_loop t i) = concat (drop i (buckets_m t))"
proof (induction t i rule: begin_loop.induct)
  case (1 t i)
  let ?bs = "buckets_m t"
  show ?case
  proof (cases "i < length ?bs")
    case False
    with "1.prems" have "i = length ?bs"
      by simp
    then show ?thesis
      by (subst (1 2) begin_loop.simps) (simp add: valid_iterator_def entries_from_def end_um_def)
  next
    case True
    then have dr: "drop i ?bs = ?bs ! i # drop (Suc i) ?bs"
      by (simp add: Cons_nth_drop_Suc)
    show ?thesis
    proof (cases "?bs ! i = []")
      case False
      with True have "begin_loop t i = \<lparr> bucket_index_m = i, list_it_m = 0 \<rparr>"
        by (subst begin_loop.simps) simp
      with True False show ?thesis
        by (simp add: valid_iterator_def entries_from_def dr)
    next
      case e: True
      with True have "begin_loop t i = begin_loop t (Suc i)"
        by (subst begin_loop.simps) simp
      moreover from "1.IH" True e
      have "valid_iterator t (begin_loop t (Suc i)) \<and>
          entries_from t (begin_loop t (Suc i)) = concat (drop (Suc i) ?bs)"
        by simp
      ultimately show ?thesis
        using e by (simp add: dr)
    qed
  qed
qed

lemma traverse_from_spec:
  "valid_iterator t it \<Longrightarrow> traverse_from t it acc = Inr (acc @ entries_from t it)"
proof (induction t it acc rule: traverse_from.induct)
  case (1 t it acc)
  let ?bs = "buckets_m t"
  let ?bi = "bucket_index_m it"
  let ?li = "list_it_m it"
  show ?case
  proof (cases "?bi = length ?bs")
    case True
    then have "iterator_eq t it (end_um t)"
      by (simp add: iterator_eq_def end_um_def)
    with True show ?thesis
      by (subst traverse_from.simps) (simp add: entries_from_def)
  next
    case False
    with "1.prems" have v: "?bi < length ?bs" "?li < length (?bs ! ?bi)"
      by (simp_all add: valid_iterator_def)
    from False have ne: "\<not> iterator_eq t it (end_um t)"
      by (simp add: iterator_eq_def end_um_def)
    let ?kv = "?bs ! ?bi ! ?li"
    let ?it' = "advance_loop t ?bi (Suc ?li)"
    have d: "deref t it = Inr ?kv"
      using v by (simp add: deref_def)
    have a: "advance t it = Inr ?it'"
      using v by (simp add: advance_def)
    from advance_loop_spec [of ?bi t "Suc ?li"] v
    have sp: "valid_iterator t ?it'"
      "entries_from t ?it' = drop (Suc ?li) (?bs ! ?bi) @ concat (drop (Suc ?bi) ?bs)"
      by simp_all
    from "1.IH" [OF ne d a sp(1)]
    have "traverse_from t ?it' (acc @ [?kv]) = Inr ((acc @ [?kv]) @ entries_from t ?it')" .
    moreover have "entries_from t it = ?kv # entries_from t ?it'"
      using v sp(2) by (simp add: entries_from_def Cons_nth_drop_Suc)
    ultimately show ?thesis
      using ne d a by (subst traverse_from.simps) simp
  qed
qed

lemma traverse_concat: "traverse t = Inr (concat (buckets_m t))"
  using begin_loop_spec [of 0 t] traverse_from_spec [of t "begin_um t" "[]"]
  by (simp add: traverse_def begin_um_def)

lemma sum_results_Inr: "sum_results (map (\<lambda>x. Inr (f x)) xs) = Inr (sum_list (map f xs))"
  by (induction xs) auto

lemma sum_bucket_sizes_concat: "sum_bucket_sizes t = Inr (length (concat (buckets_m t)))"
proof -
  let ?bs = "buckets_m t"
  have "map (bucket_size t) [0..<length ?bs] = map (\<lambda>i. Inr (length (?bs ! i))) [0..<length ?bs]"
    by (rule map_cong) (simp_all add: bucket_size_def)
  also have "\<dots> = map (\<lambda>b. Inr (length b)) (map ((!) ?bs) [0..<length ?bs])"
    by (simp only: map_map comp_def)
  also have "\<dots> = map (\<lambda>b. Inr (length b)) ?bs"
    by (simp only: map_nth)
  finally have "sum_bucket_sizes t = sum_results (map (\<lambda>b. Inr (length b)) ?bs)"
    by (simp only: sum_bucket_sizes_def bucket_count_def)
  then show ?thesis
    by (simp only: sum_results_Inr length_concat)
qed

subsection \<open>The element count\<close>

lemma insert_um_size_ok:
  assumes "size_ok t" "insert_um t kv = Inr (t', it, b)"
  shows "size_ok t'"
proof -
  obtain nb where r: "rehash_if_needed t = Inr (t\<lparr> buckets_m := nb \<rparr>)"
    and m: "mset (concat nb) = mset (concat (buckets_m t))"
    using rehash_if_needed_cases [of t] by metis
  have l: "length (concat nb) = length (concat (buckets_m t))"
    using arg_cong [OF m, of size] by simp
  let ?idx = "hasher_m t (fst kv) mod length nb"
  from assms(2) r have b: "0 < length nb"
    by (auto simp: insert_um_def bucket_def split: if_splits)
  show ?thesis
  proof (cases "scan (equal_m t) (fst kv) (nb ! ?idx)")
    case (Some pos)
    with assms(2) r b have "t' = t\<lparr> buckets_m := nb \<rparr>"
      by (simp add: insert_um_def bucket_def)
    with assms(1) l show ?thesis
      by (simp add: size_ok_def)
  next
    case None
    with assms(2) r b have "t' = t\<lparr> buckets_m := nb[?idx := nb ! ?idx @ [kv]],
        num_elements_m := num_elements_m t + 1 \<rparr>"
      by (simp add: insert_um_def bucket_def)
    moreover have "length (concat (nb[?idx := nb ! ?idx @ [kv]])) = Suc (length (concat nb))"
      using length_concat_update [of ?idx nb "nb ! ?idx @ [kv]"] b by simp
    ultimately show ?thesis
      using assms(1) l by (simp add: size_ok_def)
  qed
qed

lemma insert_each_size_ok:
  "size_ok t \<Longrightarrow> insert_each t es = Inr t' \<Longrightarrow> size_ok t'"
proof (induction es arbitrary: t)
  case Nil
  then show ?case by simp
next
  case (Cons kv es)
  from Cons.prems(2) obtain t1 it b where
    i: "insert_um t kv = Inr (t1, it, b)" and r: "insert_each t1 es = Inr t'"
    by (auto split: sum.splits)
  from Cons.IH [OF insert_um_size_ok [OF Cons.prems(1) i] r] show ?case .
qed

lemma erase_size_ok:
  assumes "size_ok t" "erase t k = Inr (t', c)"
  shows "size_ok t'"
proof -
  let ?bs = "buckets_m t"
  let ?idx = "hasher_m t k mod length ?bs"
  let ?lst = "?bs ! ?idx"
  from assms(2) have b: "0 < length ?bs"
    by (auto simp: erase_def bucket_def split: if_splits)
  then have idx: "?idx < length ?bs"
    by simp
  show ?thesis
  proof (cases "scan (equal_m t) k ?lst")
    case None
    with assms b show ?thesis
      by (simp add: erase_def bucket_def)
  next
    case (Some pos)
    from scan_Some [OF Some] have p: "pos < length ?lst"
      by simp
    let ?bs' = "?bs[?idx := take pos ?lst @ drop (Suc pos) ?lst]"
    have "length (concat ?bs) = Suc (length (concat ?bs'))"
      using arg_cong [OF mset_concat_remove [OF idx p], of size] by simp
    moreover from Some assms(2) b
    have "t' = t\<lparr> buckets_m := ?bs', num_elements_m :=
        (if num_elements_m t = 0 then 2 ^ 64 - 1 else num_elements_m t - 1) \<rparr>"
      by (simp add: erase_def bucket_def Let_def)
    ultimately show ?thesis
      using assms(1) by (simp add: size_ok_def)
  qed
qed

lemma rehash_size_ok:
  assumes "size_ok t" "rehash t n = Inr t'"
  shows "size_ok t'"
proof -
  from assms(2) obtain nb where
    r: "rehash_buckets (hasher_m t) n (buckets_m t) (replicate n []) = Inr nb"
    and t': "t' = t\<lparr> buckets_m := nb \<rparr>"
    by (auto simp: rehash_def split: sum.splits)
  from rehash_buckets_mset [OF r] have "mset (concat nb) = mset (concat (buckets_m t))"
    by simp
  from arg_cong [OF this, of size] assms(1) show ?thesis
    by (simp add: size_ok_def t')
qed

lemma set_max_load_factor_size_ok:
  assumes "size_ok t" "set_max_load_factor t ml = Inr t'"
  shows "size_ok t'"
proof -
  let ?t0 = "t\<lparr> max_load_factor_m := ml \<rparr>"
  obtain nb where "rehash_if_needed ?t0 = Inr (?t0\<lparr> buckets_m := nb \<rparr>)"
    and m: "mset (concat nb) = mset (concat (buckets_m ?t0))"
    using rehash_if_needed_cases [of ?t0] by metis
  with assms(2) have "t' = ?t0\<lparr> buckets_m := nb \<rparr>"
    by (simp add: set_max_load_factor_def)
  with arg_cong [OF m, of size] assms(1) show ?thesis
    by (simp add: size_ok_def)
qed

lemma assign_value_size_ok:
  assumes "size_ok t" "assign_value t it v = Inr t'"
  shows "size_ok t'"
proof -
  let ?bs = "buckets_m t"
  let ?bi = "bucket_index_m it"
  from assms(2) obtain kv where d: "deref t it = Inr kv"
    by (auto simp: assign_value_def split: sum.splits)
  then have bi: "?bi < length ?bs"
    by (auto simp: deref_def split: if_splits)
  from assms(2) d
  have t': "t' = t\<lparr> buckets_m := ?bs[?bi := (?bs ! ?bi)[list_it_m it := (fst kv, v)]] \<rparr>"
    by (simp add: assign_value_def)
  from length_concat_update [OF bi, of "(?bs ! ?bi)[list_it_m it := (fst kv, v)]"]
  have "length (concat (buckets_m t')) = length (concat ?bs)"
    by (simp add: t')
  with assms(1) show ?thesis
    by (simp add: size_ok_def t')
qed

lemma size_ok_empty: "num_elements_m t = 0 \<Longrightarrow> concat (buckets_m t) = [] \<Longrightarrow> size_ok t"
  by (simp add: size_ok_def)

lemma reachable_size_ok: "reachable t \<Longrightarrow> size_ok t"
proof (induction rule: reachable.induct)
  case (r_ctor n h eq)
  show ?case
    by (rule size_ok_empty) (simp_all add: UnorderedMap_ctor_def)
next
  case (r_init init n h eq t)
  have "size_ok (UnorderedMap_ctor n h eq :: ('a, 'b) UnorderedMap)"
    by (rule size_ok_empty) (simp_all add: UnorderedMap_ctor_def)
  with r_init show ?case
    by (auto simp: UnorderedMap_init_def intro: insert_each_size_ok)
next
  case (r_copy other t)
  let ?t0 = "\<lparr> buckets_m = replicate (length (buckets_m other)) [], num_elements_m = 0,
         max_load_factor_m = max_load_factor_m other, hasher_m = hasher_m other,
         equal_m = equal_m other \<rparr>"
  have "size_ok ?t0"
    by (rule size_ok_empty) simp_all
  moreover from r_copy(2) have "insert_each ?t0 (concat (buckets_m other)) = Inr t"
    by (simp add: UnorderedMap_copy_def insert_buckets_concat)
  ultimately show ?case
    by (rule insert_each_size_ok)
next
  case (r_move other)
  then show ?case
    by (simp add: UnorderedMap_move_def size_ok_def)
next
  case (r_moved_from other)
  show ?case
    by (simp add: UnorderedMap_move_def size_ok_def)
next
  case (r_assign_copy t other t')
  let ?t0 = "clear t\<lparr> hasher_m := hasher_m other, equal_m := equal_m other,
      max_load_factor_m := max_load_factor_m other,
      buckets_m := replicate (length (buckets_m other)) [] \<rparr>"
  have "size_ok ?t0"
    by (rule size_ok_empty) (simp_all add: clear_def)
  moreover from r_assign_copy(3) have "insert_each ?t0 (concat (buckets_m other)) = Inr t'"
    by (simp add: assign_copy_def insert_buckets_concat Let_def)
  ultimately show ?case
    by (rule insert_each_size_ok)
next
  case (r_assign_move t other)
  then show ?case
    by (simp add: assign_move_def size_ok_def)
next
  case (r_assign_moved_from t other)
  show ?case
    by (simp add: assign_move_def size_ok_def)
next
  case (r_assign_init t init t')
  have "size_ok (clear t)"
    by (rule size_ok_empty) (simp_all add: clear_def)
  moreover from r_assign_init(2) have "insert_each (clear t) init = Inr t'"
    by (simp add: assign_init_def)
  ultimately show ?case
    by (rule insert_each_size_ok)
next
  case (r_clear t)
  show ?case
    by (rule size_ok_empty) (simp_all add: clear_def)
next
  case (r_insert t kv t' it b)
  from r_insert(3,2) show ?case
    by (rule insert_um_size_ok)
next
  case (r_emplace t k v t' it b)
  from r_emplace(2) have "insert_um t (k, v) = Inr (t', it, b)"
    by (simp add: emplace_def)
  with r_emplace(3) show ?case
    by (rule insert_um_size_ok)
next
  case (r_subscript t dflt k t' v)
  from subscript_insert [OF r_subscript(2)] obtain it b where
    "insert_um t (k, dflt) = Inr (t', it, b)"
    by blast
  with r_subscript(3) show ?case
    by (rule insert_um_size_ok)
next
  case (r_assign_value t it v t')
  from r_assign_value(3,2) show ?case
    by (rule assign_value_size_ok)
next
  case (r_erase t k t' c)
  from r_erase(3,2) show ?case
    by (rule erase_size_ok)
next
  case (r_swap t other)
  then show ?case
    by (simp add: swap_um_def size_ok_def)
next
  case (r_swapped t other)
  then show ?case
    by (simp add: swap_um_def size_ok_def)
next
  case (r_max_load_factor t ml t')
  from r_max_load_factor(3,2) show ?case
    by (rule set_max_load_factor_size_ok)
next
  case (r_rehash t n t')
  from r_rehash(3,2) show ?case
    by (rule rehash_size_ok)
qed

text \<open>
  C5. On every table a program can build (by a constructor, \<^verbatim>\<open>insert\<close>, \<^verbatim>\<open>emplace\<close>,
  \<^verbatim>\<open>operator[]\<close>, a write through a reference, \<^verbatim>\<open>erase\<close>, \<^verbatim>\<open>clear\<close>,
  \<^verbatim>\<open>rehash\<close>, \<^verbatim>\<open>max_load_factor\<close>, \<^verbatim>\<open>swap\<close>, copy or move, construction or
  assignment), \<^verbatim>\<open>size()\<close> is the sum of \<^verbatim>\<open>bucket_size(i)\<close> over all bucket indices,
  and the traversal from \<^verbatim>\<open>begin()\<close> to \<^verbatim>\<open>end()\<close> returns and visits that many
  entries. Nothing is asked of the policy objects.
\<close>

theorem size_consistent:
  assumes "reachable t"
  shows "sum_bucket_sizes t = Inr (size_um t) \<and>
         (\<exists>es. traverse t = Inr es \<and> length es = size_um t)"
  using reachable_size_ok [OF assms]
  by (simp add: sum_bucket_sizes_concat traverse_concat size_ok_def size_um_def)

theorem size_consistent_witness:
  "reachable demo \<and> sum_bucket_sizes demo = Inr 3 \<and> size_um demo = 3 \<and>
   traverse demo = Inr [(''one'', 1), (''two'', 2), (''A'', 10)]"
proof -
  from size_consistent [OF reachable_demo]
  have "sum_bucket_sizes demo = Inr (size_um demo)"
    by simp
  moreover have "size_um demo = 3"
    by (simp add: size_um_def demo_def)
  moreover have "traverse demo = Inr [(''one'', 1), (''two'', 2), (''A'', 10)]"
    by (simp add: traverse_concat demo_def)
  ultimately show ?thesis
    using reachable_demo by simp
qed

subsection \<open>Runs of insertions\<close>

text \<open>An insertion of a new key while the growth check does not fire.\<close>

lemma insert_um_new_no_growth:
  assumes pol: "policy_ok (hasher_m t) (equal_m t)" and pl: "placed (hasher_m t) (buckets_m t)"
    and b: "0 < length (buckets_m t)" and nk: "\<not> has_key t (fst kv)"
    and ng: "\<not> float_gt (load_factor t) (max_load_factor_m t)"
  shows "\<exists>it. insert_um t kv =
           Inr (t\<lparr> buckets_m := (buckets_m t)[hasher_m t (fst kv) mod length (buckets_m t) :=
                      buckets_m t ! (hasher_m t (fst kv) mod length (buckets_m t)) @ [kv]],
                   num_elements_m := num_elements_m t + 1 \<rparr>, it, True)"
proof -
  have "rehash_if_needed t = Inr t"
    using ng by (simp add: rehash_if_needed_def)
  moreover have "scan (equal_m t) (fst kv)
      (buckets_m t ! (hasher_m t (fst kv) mod length (buckets_m t))) = None"
    using scan_bucket_None_iff [OF pol pl b, of "fst kv"] nk by simp
  ultimately show ?thesis
    using b by (simp add: insert_um_def bucket_def)
qed

lemma unique_keys_union_absent:
  assumes "policy_ok h eq" "unique_keys eq (E + add_mset kv F)"
  shows "(\<forall>e \<in># E. \<not> eq (fst e) (fst kv)) \<and> unique_keys eq (add_mset kv E + F)"
proof -
  have r: "\<forall>a. eq a a" and s: "\<forall>a b. eq a b \<longrightarrow> eq b a"
    using assms(1) unfolding policy_ok_def by blast+
  have "E + add_mset kv F = add_mset kv (E + F)"
    by simp
  with assms(2) have "unique_keys eq (add_mset kv (E + F))"
    by simp
  then have "\<forall>e \<in># E + F. \<not> eq (fst e) (fst kv)"
    by (subst (asm) unique_keys_add [OF r s]) simp
  then have 1: "\<forall>e \<in># E. \<not> eq (fst e) (fst kv)"
    by simp
  have "add_mset kv E + F = E + add_mset kv F"
    by simp
  with assms(2) have 2: "unique_keys eq (add_mset kv E + F)"
    by (simp only:)
  from 1 2 show ?thesis ..
qed

text \<open>
  A run of insertions of keys that are new and differ from one another: every pair is
  stored. The bucket count can only grow.
\<close>

lemma insert_each_fresh:
  assumes "invar t" "policy_ok (hasher_m t) (equal_m t)"
    "0 < length (buckets_m t) \<or> es = []"
    "unique_keys (equal_m t) (entries t + mset es)"
  shows "\<exists>t'. insert_each t es = Inr t' \<and> invar t' \<and> entries t' = entries t + mset es \<and>
           num_elements_m t' = num_elements_m t + length es \<and>
           hasher_m t' = hasher_m t \<and> equal_m t' = equal_m t \<and>
           max_load_factor_m t' = max_load_factor_m t \<and>
           length (buckets_m t) \<le> length (buckets_m t')"
  using assms
proof (induction es arbitrary: t)
  case Nil
  then show ?case by simp
next
  case (Cons kv es)
  from Cons.prems(3) have b: "0 < length (buckets_m t)"
    by simp
  from unique_keys_union_absent [OF Cons.prems(2), of "entries t" kv "mset es"] Cons.prems(4)
  have nk: "\<not> has_key t (fst kv)"
    and u: "unique_keys (equal_m t) (add_mset kv (entries t) + mset es)"
    by (simp_all add: has_key_entries)
  from insert_um_new [OF Cons.prems(1,2) b nk] obtain t1 it where
    i: "insert_um t kv = Inr (t1, it, True)" and inv1: "invar t1"
    and e1: "entries t1 = add_mset kv (entries t)"
    and n1: "num_elements_m t1 = num_elements_m t + 1"
    and f1: "hasher_m t1 = hasher_m t" "equal_m t1 = equal_m t"
      "max_load_factor_m t1 = max_load_factor_m t"
    and l1: "length (buckets_m t1) =
             (if float_gt (load_factor t) (max_load_factor_m t)
              then length (buckets_m t) * 2 else length (buckets_m t))"
    by blast
  have b1: "0 < length (buckets_m t1) \<or> es = []" and le: "length (buckets_m t) \<le> length (buckets_m t1)"
    using l1 b by (simp_all split: if_splits)
  have p1: "policy_ok (hasher_m t1) (equal_m t1)"
    using Cons.prems(2) f1 by simp
  have u1: "unique_keys (equal_m t1) (entries t1 + mset es)"
    using u e1 f1 by simp
  from Cons.IH [OF inv1 p1 b1 u1] obtain t' where
    "insert_each t1 es = Inr t'" "invar t'" "entries t' = entries t1 + mset es"
    "num_elements_m t' = num_elements_m t1 + length es"
    "hasher_m t' = hasher_m t1" "equal_m t' = equal_m t1"
    "max_load_factor_m t' = max_load_factor_m t1"
    "length (buckets_m t1) \<le> length (buckets_m t')"
    by blast
  with i e1 n1 f1 le show ?case
    by (intro exI [of _ t']) simp
qed

text \<open>
  The same run while no growth check fires: the bucket array is the one that appending
  each pair to the bucket of its key gives, which is what the inner loop of \<^verbatim>\<open>rehash\<close>
  computes.
\<close>

lemma insert_each_no_growth:
  assumes "invar t" "policy_ok (hasher_m t) (equal_m t)"
    "0 < length (buckets_m t) \<or> es = []"
    "unique_keys (equal_m t) (entries t + mset es)"
    "\<forall>m. num_elements_m t \<le> m \<and> m < num_elements_m t + length es \<longrightarrow>
         \<not> float_gt (float_div m (length (buckets_m t))) (max_load_factor_m t)"
  shows "\<exists>t'. insert_each t es = Inr t' \<and>
           rehash_bucket (hasher_m t) (length (buckets_m t)) es (buckets_m t)
             = Inr (buckets_m t') \<and>
           length (buckets_m t') = length (buckets_m t)"
  using assms
proof (induction es arbitrary: t)
  case Nil
  then show ?case by simp
next
  case (Cons kv es)
  let ?bs = "buckets_m t"
  let ?idx = "hasher_m t (fst kv) mod length ?bs"
  let ?t1 = "t\<lparr> buckets_m := ?bs[?idx := ?bs ! ?idx @ [kv]],
                 num_elements_m := num_elements_m t + 1 \<rparr>"
  from Cons.prems(3) have b: "0 < length ?bs"
    by simp
  from Cons.prems(1) have pl: "placed (hasher_m t) ?bs"
    by (simp add: invar_def)
  from unique_keys_union_absent [OF Cons.prems(2), of "entries t" kv "mset es"] Cons.prems(4)
  have nk: "\<not> has_key t (fst kv)"
    and u: "unique_keys (equal_m t) (add_mset kv (entries t) + mset es)"
    by (simp_all add: has_key_entries)
  from Cons.prems(5) have ng: "\<not> float_gt (load_factor t) (max_load_factor_m t)"
    by (simp add: load_factor_def)
  from insert_um_new_no_growth [OF Cons.prems(2) pl b nk ng] obtain it where
    i: "insert_um t kv = Inr (?t1, it, True)"
    by blast
  from push_back_invar [OF Cons.prems(1,2) b nk]
  have inv1: "invar ?t1" and e1: "entries ?t1 = add_mset kv (entries t)"
    by simp_all
  have p1: "policy_ok (hasher_m ?t1) (equal_m ?t1)"
    using Cons.prems(2) by simp
  have b1: "0 < length (buckets_m ?t1) \<or> es = []"
    using b by simp
  have u1: "unique_keys (equal_m ?t1) (entries ?t1 + mset es)"
    using u e1 by simp
  have ng1: "\<forall>m. num_elements_m ?t1 \<le> m \<and> m < num_elements_m ?t1 + length es \<longrightarrow>
         \<not> float_gt (float_div m (length (buckets_m ?t1))) (max_load_factor_m ?t1)"
    using Cons.prems(5) by simp
  from Cons.IH [OF inv1 p1 b1 u1 ng1] obtain t' where
    "insert_each ?t1 es = Inr t'"
    "rehash_bucket (hasher_m ?t1) (length (buckets_m ?t1)) es (buckets_m ?t1)
       = Inr (buckets_m t')"
    "length (buckets_m t') = length (buckets_m ?t1)"
    by blast
  with i b show ?case
    by (intro exI [of _ t']) (simp add: Let_def)
qed

lemma unique_keys_distinct: "distinct (map fst es) \<Longrightarrow> unique_keys (=) (mset es)"
proof (induction es)
  case Nil
  then show ?case by (simp add: unique_keys_def)
next
  case (Cons e es)
  then have "\<forall>x \<in> set es. fst x \<noteq> fst e"
    by (metis distinct.simps(2) image_eqI list.simps(9) list.set_map)
  with Cons have "(\<forall>x \<in># mset es. fst x = fst e \<longrightarrow> False) \<and> unique_keys (=) (mset es)"
    by simp
  then show ?case
    by (simp only: mset.simps) (subst unique_keys_add, auto)
qed

subsection \<open>Seventeen keys in sixteen buckets\<close>

lemma hash_one_letter: "StringHash [c] = char_to_size_t c mod 2 ^ 64"
  by (simp add: StringHash_def)

text \<open>
  C3 expects a rehash within the seventeen insertions. There is none: the growth check
  comes before each insertion, and before the seventeenth the load factor is \<open>16/16\<close>,
  which does not exceed 1.0. With the README's hash the table after the seventeen
  insertions is \<open>table_a_to_q\<close>, on 16 buckets.
\<close>

theorem seventeen_inserts_no_rehash:
  "insert_each (UnorderedMap_ctor 16 StringHash StringEqual) pairs_a_to_q = Inr table_a_to_q \<and>
   bucket_count table_a_to_q = 16 \<and> size_um table_a_to_q = 17"
proof -
  have "insert_each (UnorderedMap_ctor 16 StringHash StringEqual) pairs_a_to_q
      = Inr table_a_to_q"
    by (simp add: pairs_a_to_q_def UnorderedMap_ctor_def insert_um_def rehash_if_needed_def
        load_factor_def float_div_gt_one bucket_def hash_one_letter char_to_size_t_def
        StringEqual_def table_a_to_q_def)
      (simp add: list_eval)
  then show ?thesis
    by (simp add: bucket_count_def size_um_def table_a_to_q_def)
qed


lemma policy_ok_eq: "policy_ok h (=)"
  by (simp add: policy_ok_def)

text \<open>
  C3, as the code has it, for any hash function, \<^verbatim>\<open>std::equal_to\<close> and any seventeen
  distinct keys with any values: the seventeen insertions into an empty table of 16
  buckets with threshold 1.0 all return, the table then has still 16 buckets and size 17,
  \<^verbatim>\<open>at\<close> yields for each key the value inserted with it, and it is the insertion of
  an eighteenth key that rehashes, to 32 buckets.
\<close>

theorem seventeen_inserts:
  assumes "distinct ks" "length ks = 17"
  shows "\<exists>t. insert_each (UnorderedMap_ctor 16 h (=)) (map (\<lambda>k. (k, f k)) ks) = Inr t \<and>
           bucket_count t = 16 \<and> size_um t = 17 \<and>
           (\<forall>k \<in> set ks. at_um t k = Inr (f k)) \<and>
           (\<forall>kv. fst kv \<notin> set ks \<longrightarrow>
              (\<exists>t' it. insert_um t kv = Inr (t', it, True) \<and> bucket_count t' = 32))"
proof -
  let ?t0 = "UnorderedMap_ctor 16 h (=) :: ('a, 'b) UnorderedMap"
  let ?es = "map (\<lambda>k. (k, f k)) ks"
  have f0: "hasher_m ?t0 = h" "equal_m ?t0 = (=)" "max_load_factor_m ?t0 = Num 1"
    "length (buckets_m ?t0) = 16" "num_elements_m ?t0 = 0" "entries ?t0 = {#}"
    by (simp_all add: UnorderedMap_ctor_def entries_def)
  have inv0: "invar ?t0"
    by (rule invar_ctor)
  have p0: "policy_ok (hasher_m ?t0) (equal_m ?t0)"
    by (simp add: f0 policy_ok_eq)
  have b0: "0 < length (buckets_m ?t0) \<or> ?es = []"
    by (simp add: f0)
  have "map fst ?es = ks"
    by (simp add: comp_def)
  with assms(1) have "unique_keys (=) (mset ?es)"
    by (intro unique_keys_distinct) simp
  then have u0: "unique_keys (equal_m ?t0) (entries ?t0 + mset ?es)"
    by (simp add: f0)
  have ng: "\<forall>m. num_elements_m ?t0 \<le> m \<and> m < num_elements_m ?t0 + length ?es \<longrightarrow>
         \<not> float_gt (float_div m (length (buckets_m ?t0))) (max_load_factor_m ?t0)"
    using assms(2) by (simp add: f0 float_div_16)
  from insert_each_fresh [OF inv0 p0 b0 u0] obtain t where
    ie: "insert_each ?t0 ?es = Inr t" and inv: "invar t"
    and en: "entries t = mset ?es" and n: "num_elements_m t = 17"
    and ft: "hasher_m t = h" "equal_m t = (=)" "max_load_factor_m t = Num 1"
    using assms(2) by (auto simp: f0)
  from insert_each_no_growth [OF inv0 p0 b0 u0 ng] ie have l: "length (buckets_m t) = 16"
    by (auto simp: f0)
  have pt: "policy_ok (hasher_m t) (equal_m t)"
    by (simp add: ft policy_ok_eq)
  have bt: "0 < length (buckets_m t)"
    by (simp add: l)
  have st: "set (concat (buckets_m t)) = set ?es"
    using arg_cong [OF en, of set_mset] by (simp add: entries_def)
  have at: "at_um t k = Inr (f k)" if "k \<in> set ks" for k
  proof -
    from that have "(k, f k) \<in> set (concat (buckets_m t))"
      unfolding st by simp
    from lookup_hit(4) [OF pt inv bt this, of k] show ?thesis
      by (simp add: ft)
  qed
  have nx: "\<exists>t' it. insert_um t kv = Inr (t', it, True) \<and> bucket_count t' = 32"
    if "fst kv \<notin> set ks" for kv
  proof -
    from that have "\<not> has_key t (fst kv)"
      unfolding has_key_def st ft by auto
    from insert_um_new [OF inv pt bt this] obtain t' it where
      "insert_um t kv = Inr (t', it, True)"
      "length (buckets_m t') =
             (if float_gt (load_factor t) (max_load_factor_m t)
              then length (buckets_m t) * 2 else length (buckets_m t))"
      by blast
    moreover have "float_gt (load_factor t) (max_load_factor_m t)"
      by (simp add: load_factor_def n l ft float_div_16)
    ultimately show ?thesis
      by (auto simp: bucket_count_def l)
  qed
  from ie l n at nx show ?thesis
    by (intro exI [of _ t]) (simp add: bucket_count_def size_um_def)
qed

theorem seventeen_inserts_witness:
  "distinct keys_a_to_q \<and> length keys_a_to_q = 17 \<and>
   (\<exists>t. insert_each (UnorderedMap_ctor 16 StringHash (=))
           (map (\<lambda>k. (k, length k)) keys_a_to_q) = Inr t \<and>
        bucket_count t = 16 \<and> size_um t = 17 \<and> at_um t ''a'' = Inr 1 \<and>
        at_um t ''q'' = Inr 1 \<and>
        (\<exists>t' it. insert_um t (''r'', 1) = Inr (t', it, True) \<and> bucket_count t' = 32))"
proof -
  have d: "distinct keys_a_to_q" and l: "length keys_a_to_q = 17"
    by (simp_all add: keys_a_to_q_def)
  have m: "''a'' \<in> set keys_a_to_q" "''q'' \<in> set keys_a_to_q" "''r'' \<notin> set keys_a_to_q"
    by (simp_all add: keys_a_to_q_def)
  from seventeen_inserts [OF d l, of StringHash length] obtain t where
    "insert_each (UnorderedMap_ctor 16 StringHash (=))
       (map (\<lambda>k. (k, length k)) keys_a_to_q) = Inr t"
    "bucket_count t = 16" "size_um t = 17"
    "\<forall>k \<in> set keys_a_to_q. at_um t k = Inr (length k)"
    "\<forall>kv. fst kv \<notin> set keys_a_to_q \<longrightarrow>
       (\<exists>t' it. insert_um t kv = Inr (t', it, True) \<and> bucket_count t' = 32)"
    by blast
  with m have "insert_each (UnorderedMap_ctor 16 StringHash (=))
           (map (\<lambda>k. (k, length k)) keys_a_to_q) = Inr t \<and>
        bucket_count t = 16 \<and> size_um t = 17 \<and> at_um t ''a'' = Inr 1 \<and>
        at_um t ''q'' = Inr 1 \<and>
        (\<exists>t' it. insert_um t (''r'', 1) = Inr (t', it, True) \<and> bucket_count t' = 32)"
    by fastforce
  with d l show ?thesis
    by blast
qed

subsection \<open>Copy construction\<close>




lemma grow_none:
  "\<forall>m. n \<le> m \<and> m < n + k \<longrightarrow> \<not> float_gt (float_div m b) ml \<Longrightarrow> grown_bucket_count ml b n k = b"
proof (induction k arbitrary: n)
  case 0
  then show ?case by simp
next
  case (Suc k)
  from Suc.prems have "\<not> float_gt (float_div n b) ml"
    by simp
  moreover from Suc.prems have "\<forall>m. Suc n \<le> m \<and> m < Suc n + k \<longrightarrow> \<not> float_gt (float_div m b) ml"
    by simp
  then have "grown_bucket_count ml b (Suc n) k = b"
    by (rule Suc.IH)
  ultimately show ?case by simp
qed




text \<open>
  With eight entries and threshold \<^verbatim>\<open>0.7f\<close> ten buckets stay ten, the eighth check
  comparing \<^verbatim>\<open>7.0f / 10\<close> with \<^verbatim>\<open>0.7f\<close>; a ninth entry doubles them.
\<close>

lemma grow_numeral:
  "grown_bucket_count ml b n (numeral k) =
     grown_bucket_count ml (if float_gt (float_div n b) ml then b * 2 else b) (n + 1) (pred_numeral k)"
  by (simp add: numeral_eq_Suc)

lemma grow_seven_tenths:
  "grown_bucket_count (float_lit (7 / 10)) 10 0 8 = 10" "grown_bucket_count (float_lit (7 / 10)) 10 0 9 = 20"
  by (simp_all add: grow_numeral float_div_exact float_lit_def float_round_def float_eval)






end
